theory Spec2Isabelle
  imports Main "HOL-Library.Word"
begin

unbundle bit_operations_syntax

section \<open>Bytes, status values and the collaborators of the table builder\<close>

text \<open>
  A \<^verbatim>\<open>Slice\<close> or \<^verbatim>\<open>std::string\<close> is a list of 8-bit characters. The unsigned
  value of a byte is \<open>of_char\<close>.
\<close>

type_synonym bytes = string

datatype Status =
    OK
  | NotFound string
  | Corruption string
  | NotSupported string
  | InvalidArgument string
  | IOError string

text \<open>
  What the source treats as a programming error: a failed \<^verbatim>\<open>assert\<close>, a read of a
  \<^verbatim>\<open>std::vector\<close> past its end and a call through a null pointer (both undefined
  behaviour in C++).
\<close>

datatype fault = AssertionFailed string | IndexOutOfRange | NullDereference

datatype CompressionType =
    kNoCompression
  | kSnappyCompression
  | kZlibCompression
  | kBZip2Compression

text \<open>The tag byte stored in a block trailer (0 none, 1 snappy, 2 zlib, 3 bzip2).\<close>

fun compression_tag :: "CompressionType \<Rightarrow> char" where
  "compression_tag kNoCompression = char_of (0::nat)"
| "compression_tag kSnappyCompression = char_of (1::nat)"
| "compression_tag kZlibCompression = char_of (2::nat)"
| "compression_tag kBZip2Compression = char_of (3::nat)"

record Options =
  block_size :: "64 word"
  block_size_deviation :: int
  block_restart_interval :: int
  compression :: CompressionType
  compression_per_level :: "CompressionType list"
  filter_policy :: "string option"

record BlockHandle =
  handle_offset :: "64 word"
  handle_size :: "64 word"

text \<open>A default-constructed handle has both fields set to all ones.\<close>

definition BlockHandle_default :: BlockHandle where
  "BlockHandle_default = \<lparr>handle_offset = - 1, handle_size = - 1\<rparr>"

subsection \<open>Integer codecs\<close>

text \<open>
  Modelled from the spec: \<^verbatim>\<open>util/coding\<close> is not among the sources. Unsigned varints
  carry seven bits per byte, least significant group first, with the top bit set on
  every byte but the last; fixed-width integers are little-endian.
\<close>

fun PutVarint :: "nat \<Rightarrow> bytes" where
  "PutVarint n =
     (if n < 128 then [char_of n] else char_of (n mod 128 + 128) # PutVarint (n div 128))"

declare PutVarint.simps [simp del]

definition PutVarint64 :: "64 word \<Rightarrow> bytes" where
  "PutVarint64 v = PutVarint (unat v)"

definition PutVarint32 :: "32 word \<Rightarrow> bytes" where
  "PutVarint32 v = PutVarint (unat v)"

fun le_encode :: "nat \<Rightarrow> nat \<Rightarrow> bytes" where
  "le_encode 0 v = []"
| "le_encode (Suc n) v = char_of (v mod 256) # le_encode n (v div 256)"

fun le_decode :: "bytes \<Rightarrow> nat" where
  "le_decode [] = 0"
| "le_decode (b # bs) = of_char b + 256 * le_decode bs"

definition EncodeFixed32 :: "32 word \<Rightarrow> bytes" where
  "EncodeFixed32 v = le_encode 4 (unat v)"

definition DecodeFixed32 :: "bytes \<Rightarrow> 32 word" where
  "DecodeFixed32 bs = of_nat (le_decode (take 4 bs))"

definition EncodeFixed64 :: "64 word \<Rightarrow> bytes" where
  "EncodeFixed64 v = le_encode 8 (unat v)"

definition DecodeFixed64 :: "bytes \<Rightarrow> 64 word" where
  "DecodeFixed64 bs = of_nat (le_decode (take 8 bs))"

definition BlockHandle_EncodeTo :: "BlockHandle \<Rightarrow> bytes" where
  "BlockHandle_EncodeTo h = PutVarint64 (handle_offset h) @ PutVarint64 (handle_size h)"

subsection \<open>CRC32C and its mask\<close>

text \<open>
  Modelled from the spec: \<^verbatim>\<open>util/crc32c\<close> is not among the sources. The checksum is the
  Castagnoli CRC (reflected polynomial \<open>0x82F63B78\<close>), computed bit by bit; \<open>crc_Extend\<close>
  continues the checksum of a string over more data, and \<open>crc_Value\<close> starts from 0.
  The mask is \<open>((c >> 15) | (c << 17)) + 0xa282ead8\<close>.
\<close>

definition crc_step :: "32 word \<Rightarrow> 32 word" where
  "crc_step x = (if bit x 0 then drop_bit 1 x XOR 0x82F63B78 else drop_bit 1 x)"

definition crc_byte :: "char \<Rightarrow> 32 word \<Rightarrow> 32 word" where
  "crc_byte b l = (crc_step ^^ 8) (l XOR of_char b)"

definition crc_Extend :: "32 word \<Rightarrow> bytes \<Rightarrow> 32 word" where
  "crc_Extend init_crc data = fold crc_byte data (init_crc XOR 0xffffffff) XOR 0xffffffff"

definition crc_Value :: "bytes \<Rightarrow> 32 word" where
  "crc_Value data = crc_Extend 0 data"

definition kMaskDelta :: "32 word" where
  "kMaskDelta = 0xa282ead8"

definition crc_Mask :: "32 word \<Rightarrow> 32 word" where
  "crc_Mask crc = ((drop_bit 15 crc) OR (push_bit 17 crc)) + kMaskDelta"

subsection \<open>The writable file\<close>

text \<open>
  The sink is an external collaborator. The model records every call the builder makes
  on it, in order, and takes the result of each call from a script: the head of
  \<open>file_results\<close> is what the next call returns, and a call on an exhausted script
  succeeds.
\<close>

datatype file_op = FileAppend bytes | FileFlush

record WritableFile =
  file_ops :: "file_op list"
  file_results :: "Status list"

definition file_call :: "file_op \<Rightarrow> WritableFile \<Rightarrow> Status \<times> WritableFile" where
  "file_call op f =
     (case file_results f of
        [] \<Rightarrow> (OK, f\<lparr>file_ops := file_ops f @ [op]\<rparr>)
      | st # rest \<Rightarrow> (st, f\<lparr>file_ops := file_ops f @ [op], file_results := rest\<rparr>))"

definition file_Append :: "bytes \<Rightarrow> WritableFile \<Rightarrow> Status \<times> WritableFile" where
  "file_Append data f = file_call (FileAppend data) f"

definition file_Flush :: "WritableFile \<Rightarrow> Status \<times> WritableFile" where
  "file_Flush f = file_call FileFlush f"

text \<open>The result the sink gives to its next call, and to the call after that.\<close>

definition next_result :: "WritableFile \<Rightarrow> Status" where
  "next_result f = (case file_results f of [] \<Rightarrow> OK | st # _ \<Rightarrow> st)"

definition second_result :: "WritableFile \<Rightarrow> Status" where
  "second_result f = (case file_results f of _ # st # _ \<Rightarrow> st | _ \<Rightarrow> OK)"

subsection \<open>Block builder and filter block builder\<close>

text \<open>
  Modelled from the spec: \<^verbatim>\<open>table/block_builder\<close> is not among the sources. A block
  in progress is the list of entries added since construction or the last \<open>Reset\<close>,
  with its restart interval; \<open>empty\<close> holds iff there was no \<open>Add\<close> since then. The
  serialisation and the two size estimates are parameters (see \<open>Env\<close>).
\<close>

record BlockBuilder =
  restart_interval :: int
  entries :: "(bytes \<times> bytes) list"

definition BlockBuilder_new :: "int \<Rightarrow> BlockBuilder" where
  "BlockBuilder_new interval = \<lparr>restart_interval = interval, entries = []\<rparr>"

definition BlockBuilder_empty :: "BlockBuilder \<Rightarrow> bool" where
  "BlockBuilder_empty b = (entries b = [])"

definition BlockBuilder_Add :: "bytes \<Rightarrow> bytes \<Rightarrow> BlockBuilder \<Rightarrow> BlockBuilder" where
  "BlockBuilder_Add key val b = b\<lparr>entries := entries b @ [(key, val)]\<rparr>"

definition BlockBuilder_Reset :: "BlockBuilder \<Rightarrow> BlockBuilder" where
  "BlockBuilder_Reset b = b\<lparr>entries := []\<rparr>"

text \<open>
  Modelled from the spec: \<^verbatim>\<open>table/filter_block\<close> is not among the sources. The filter
  builder is the sequence of \<open>StartBlock\<close> and \<open>AddKey\<close> calls it has received.
\<close>

datatype filter_call = StartBlock "64 word" | AddKey bytes

type_synonym FilterBlockBuilder = "filter_call list"

text \<open>
  The collaborators whose code is outside the builder: the comparator with its two
  key-shortening operations, the three codecs (\<open>None\<close> when the codec is unavailable or
  fails), the block serialisation with its size estimates, the filter serialisation and
  the footer encoding.
\<close>

record Env =
  Compare :: "bytes \<Rightarrow> bytes \<Rightarrow> int"
  FindShortestSeparator :: "bytes \<Rightarrow> bytes \<Rightarrow> bytes"
  FindShortSuccessor :: "bytes \<Rightarrow> bytes"
  Snappy_Compress :: "bytes \<Rightarrow> bytes option"
  Zlib_Compress :: "bytes \<Rightarrow> bytes option"
  BZip2_Compress :: "bytes \<Rightarrow> bytes option"
  BlockBuilder_Finish :: "BlockBuilder \<Rightarrow> bytes"
  CurrentSizeEstimate :: "BlockBuilder \<Rightarrow> 64 word"
  EstimateSizeAfterKV :: "BlockBuilder \<Rightarrow> bytes \<Rightarrow> bytes \<Rightarrow> 64 word"
  FilterBlock_Finish :: "FilterBlockBuilder \<Rightarrow> bytes"
  Footer_EncodeTo :: "BlockHandle \<Rightarrow> BlockHandle \<Rightarrow> bytes"


section \<open>The table builder\<close>

record Rep =
  options :: Options
  index_block_options :: Options
  wfile :: WritableFile
  offset :: "64 word"
  status :: Status
  data_block :: BlockBuilder
  index_block :: BlockBuilder
  last_key :: bytes
  num_entries :: "64 word"
  num_data_blocks :: "64 word"
  raw_key_size :: "64 word"
  raw_value_size :: "64 word"
  data_size :: "64 word"
  closed :: bool
  filter_block :: "FilterBlockBuilder option"
  pending_index_entry :: bool
  pending_handle :: BlockHandle
  compressed_output :: bytes

text \<open>The builder is its \<open>Rep\<close> (whose \<^verbatim>\<open>file\<close> is the field \<open>wfile\<close>) together with
  \<^verbatim>\<open>level_\<close>, the level it was created for.\<close>

record TableBuilder = Rep +
  level :: int

definition kBlockTrailerSize :: nat where
  "kBlockTrailerSize = 5"

definition TableBuilder_new :: "Options \<Rightarrow> WritableFile \<Rightarrow> int \<Rightarrow> TableBuilder" where
  "TableBuilder_new opt f lvl =
     \<lparr>options = opt,
      index_block_options = opt\<lparr>block_restart_interval := 1\<rparr>,
      wfile = f,
      offset = 0,
      status = OK,
      data_block = BlockBuilder_new (block_restart_interval opt),
      index_block = BlockBuilder_new 1,
      last_key = [],
      num_entries = 0,
      num_data_blocks = 0,
      raw_key_size = 0,
      raw_value_size = 0,
      data_size = 0,
      closed = False,
      filter_block = (case filter_policy opt of None \<Rightarrow> None | Some _ \<Rightarrow> Some [StartBlock 0]),
      pending_index_entry = False,
      pending_handle = BlockHandle_default,
      compressed_output = [],
      level = lvl\<rparr>"

definition ok :: "TableBuilder \<Rightarrow> bool" where
  "ok r = (status r = OK)"

definition GoodCompressionRatio :: "nat \<Rightarrow> nat \<Rightarrow> bool" where
  "GoodCompressionRatio compressed_size raw_size =
     (compressed_size < raw_size - (raw_size div 8))"

subsection \<open>WriteRawBlock\<close>

definition WriteRawBlock ::
  "bytes \<Rightarrow> CompressionType \<Rightarrow> TableBuilder \<Rightarrow> BlockHandle \<times> TableBuilder" where
  "WriteRawBlock block_contents type r =
     (let handle = \<lparr>handle_offset = offset r,
                     handle_size = of_nat (length block_contents)\<rparr>;
          (st1, f1) = file_Append block_contents (wfile r);
          r1 = r\<lparr>wfile := f1, status := st1\<rparr>
      in if st1 = OK then
           (let trailer0 = compression_tag type;
                crc = crc_Value block_contents;
                crc' = crc_Extend crc [trailer0];
                trailer = trailer0 # EncodeFixed32 (crc_Mask crc');
                (st2, f2) = file_Append trailer f1;
                r2 = r1\<lparr>wfile := f2, status := st2\<rparr>
            in if st2 = OK then
                 (handle,
                  r2\<lparr>offset := offset r2 + of_nat (length block_contents)
                                 + of_nat kBlockTrailerSize\<rparr>)
               else (handle, r2))
         else (handle, r1))"

subsection \<open>WriteBlock\<close>

text \<open>
  The codec of a block: the entry of \<open>compression_per_level\<close> at index
  \<open>max 0 (min level_ n)\<close> when that list is not empty, the global codec otherwise. The
  vector is read with \<^verbatim>\<open>operator[]\<close>; an index outside \<open>0..n-1\<close> is a fault.
\<close>

definition WriteBlock_index :: "int \<Rightarrow> int \<Rightarrow> int" where
  "WriteBlock_index lvl n = max 0 (min lvl n)"

definition WriteBlock_type :: "Options \<Rightarrow> int \<Rightarrow> fault + CompressionType" where
  "WriteBlock_type opts lvl =
     (if compression_per_level opts \<noteq> [] then
        (let n = int (length (compression_per_level opts));
             i = WriteBlock_index lvl n
         in if 0 \<le> i \<and> i < n then Inr (compression_per_level opts ! nat i)
            else Inl IndexOutOfRange)
      else Inr (compression opts))"

definition compress_or_raw ::
  "(bytes \<Rightarrow> bytes option) \<Rightarrow> CompressionType \<Rightarrow> bytes \<Rightarrow> bytes \<times> CompressionType" where
  "compress_or_raw codec type raw =
     (case codec raw of
        Some compressed \<Rightarrow>
          if GoodCompressionRatio (length compressed) (length raw) then (compressed, type)
          else (raw, kNoCompression)
      | None \<Rightarrow> (raw, kNoCompression))"

fun WriteBlock_contents :: "Env \<Rightarrow> CompressionType \<Rightarrow> bytes \<Rightarrow> bytes \<times> CompressionType" where
  "WriteBlock_contents E kNoCompression raw = (raw, kNoCompression)"
| "WriteBlock_contents E kSnappyCompression raw =
     compress_or_raw (Snappy_Compress E) kSnappyCompression raw"
| "WriteBlock_contents E kZlibCompression raw =
     compress_or_raw (Zlib_Compress E) kZlibCompression raw"
| "WriteBlock_contents E kBZip2Compression raw =
     compress_or_raw (BZip2_Compress E) kBZip2Compression raw"

text \<open>
  \<open>WriteBlock\<close> takes the block by pointer: the model returns the handle, the block after
  its \<open>Reset\<close> and the builder.
\<close>

definition WriteBlock ::
  "Env \<Rightarrow> BlockBuilder \<Rightarrow> TableBuilder \<Rightarrow> fault + (BlockHandle \<times> BlockBuilder \<times> TableBuilder)" where
  "WriteBlock E block r =
     (if \<not> ok r then Inl (AssertionFailed ''ok()'')
      else
        (let raw = BlockBuilder_Finish E block in
         case WriteBlock_type (options r) (level r) of
           Inl f \<Rightarrow> Inl f
         | Inr type \<Rightarrow>
             (let (block_contents, type') = WriteBlock_contents E type raw;
                  (handle, r') = WriteRawBlock block_contents type' r
              in Inr (handle, BlockBuilder_Reset block, r'\<lparr>compressed_output := []\<rparr>))))"

subsection \<open>Flush\<close>

text \<open>
  What \<open>Flush\<close> does after \<open>WriteBlock\<close>: when the write succeeded it sets the pending
  flag and flushes the file, then it starts a new filter segment at the current offset
  and updates the two counters.
\<close>

definition Flush_file :: "TableBuilder \<Rightarrow> TableBuilder" where
  "Flush_file r =
     (if ok r then
        (let (st, f) = file_Flush (wfile r)
         in r\<lparr>pending_index_entry := True, wfile := f, status := st\<rparr>)
      else r)"

definition Flush_filter :: "TableBuilder \<Rightarrow> TableBuilder" where
  "Flush_filter r =
     (case filter_block r of
        None \<Rightarrow> r
      | Some fb \<Rightarrow> r\<lparr>filter_block := Some (fb @ [StartBlock (offset r)])\<rparr>)"

definition Flush_counters :: "TableBuilder \<Rightarrow> TableBuilder" where
  "Flush_counters r = r\<lparr>data_size := offset r, num_data_blocks := num_data_blocks r + 1\<rparr>"

definition Flush :: "Env \<Rightarrow> TableBuilder \<Rightarrow> fault + TableBuilder" where
  "Flush E r =
     (if closed r then Inl (AssertionFailed ''!r->closed'')
      else if \<not> ok r then Inr r
      else if BlockBuilder_empty (data_block r) then Inr r
      else if pending_index_entry r then Inl (AssertionFailed ''!r->pending_index_entry'')
      else
        (case WriteBlock E (data_block r) r of
           Inl f \<Rightarrow> Inl f
         | Inr (handle, block, r1) \<Rightarrow>
             Inr (Flush_counters (Flush_filter (Flush_file
                    (r1\<lparr>data_block := block, pending_handle := handle\<rparr>))))))"

subsection \<open>Add\<close>

text \<open>
  \<open>Add\<close> in the order of the source: the two guards, the flush decision, the emission of
  the pending index entry, the append to the data block.
\<close>

definition Add_pending :: "Env \<Rightarrow> bytes \<Rightarrow> TableBuilder \<Rightarrow> fault + TableBuilder" where
  "Add_pending E key r =
     (if pending_index_entry r then
        (if \<not> BlockBuilder_empty (data_block r)
         then Inl (AssertionFailed ''r->data_block.empty()'')
         else
           (let sep = FindShortestSeparator E (last_key r) key;
                handle_encoding = BlockHandle_EncodeTo (pending_handle r)
            in Inr (r\<lparr>last_key := sep,
                       index_block := BlockBuilder_Add sep handle_encoding (index_block r),
                       pending_index_entry := False\<rparr>)))
      else Inr r)"

definition Add_append :: "bytes \<Rightarrow> bytes \<Rightarrow> TableBuilder \<Rightarrow> TableBuilder" where
  "Add_append key val r =
     (let r1 = (case filter_block r of
                  None \<Rightarrow> r
                | Some fb \<Rightarrow> r\<lparr>filter_block := Some (fb @ [AddKey key])\<rparr>)
      in r1\<lparr>last_key := key,
            data_block := BlockBuilder_Add key val (data_block r1),
            num_entries := num_entries r1 + 1,
            raw_key_size := raw_key_size r1 + of_nat (length key),
            raw_value_size := raw_value_size r1 + of_nat (length val)\<rparr>)"

definition Add :: "Env \<Rightarrow> bytes \<Rightarrow> bytes \<Rightarrow> TableBuilder \<Rightarrow> fault + TableBuilder" where
  "Add E key val r =
     (if closed r then Inl (AssertionFailed ''!r->closed'')
      else if \<not> ok r then Inr r
      else if num_entries r > 0 \<and> \<not> (Compare E key (last_key r) > 0)
      then Inl (AssertionFailed ''Compare(key, last_key) > 0'')
      else
        (let curr_size = CurrentSizeEstimate E (data_block r);
             estimated_size_after = EstimateSizeAfterKV E (data_block r) key val
         in case (if curr_size \<ge> block_size (options r) \<or>
                     (estimated_size_after > block_size (options r) \<and>
                      block_size_deviation (options r) > 0 \<and>
                      curr_size * 100 >
                        block_size (options r)
                          * word_of_int (100 - block_size_deviation (options r)))
                  then Flush E r else Inr r) of
              Inl f \<Rightarrow> Inl f
            | Inr r1 \<Rightarrow>
                (case Add_pending E key r1 of
                   Inl f \<Rightarrow> Inl f
                 | Inr r2 \<Rightarrow> Inr (Add_append key val r2))))"

definition Abandon :: "TableBuilder \<Rightarrow> fault + TableBuilder" where
  "Abandon r =
     (if closed r then Inl (AssertionFailed ''!r->closed'') else Inr (r\<lparr>closed := True\<rparr>))"

definition NumEntries :: "TableBuilder \<Rightarrow> 64 word" where
  "NumEntries r = num_entries r"

definition FileSize :: "TableBuilder \<Rightarrow> 64 word" where
  "FileSize r = offset r"


subsection \<open>The sorted map of the meta blocks\<close>

text \<open>
  Modelled from the spec: the bytewise comparator is not among the sources. It orders
  strings by their unsigned bytes, a proper prefix before its extensions.
\<close>

fun BytewiseCompare :: "bytes \<Rightarrow> bytes \<Rightarrow> int" where
  "BytewiseCompare [] [] = 0"
| "BytewiseCompare [] (y # ys) = - 1"
| "BytewiseCompare (x # xs) [] = 1"
| "BytewiseCompare (x # xs) (y # ys) =
     (if (of_char x :: nat) < of_char y then - 1
      else if (of_char y :: nat) < of_char x then 1
      else BytewiseCompare xs ys)"

definition BytewiseLessThan :: "bytes \<Rightarrow> bytes \<Rightarrow> bool" where
  "BytewiseLessThan key1 key2 = (BytewiseCompare key1 key2 \<le> 0)"

text \<open>
  \<^verbatim>\<open>std::map\<close> with a comparison object \<open>lt\<close> (its \<^verbatim>\<open>key_compare\<close>), seen through the in-order sequence of
  its nodes. \<open>find\<close> is \<open>lower_bound\<close> (the first node whose key is not \<open>lt\<close>-before
  the searched key) followed by the test that the searched key is not \<open>lt\<close>-before
  that node's key. \<open>insert\<close> descends to the first node the new key is \<open>lt\<close>-before,
  and links the new node there unless the node just before that place has a key that is
  not \<open>lt\<close>-before the new one (the key is then taken to be present already).
\<close>

type_synonym BytewiseSortedMap = "(bytes \<times> bytes) list"

fun map_lower_bound ::
  "(bytes \<Rightarrow> bytes \<Rightarrow> bool) \<Rightarrow> BytewiseSortedMap \<Rightarrow> bytes \<Rightarrow> BytewiseSortedMap" where
  "map_lower_bound lt [] k = []"
| "map_lower_bound lt (n # m) k =
     (if lt (fst n) k then map_lower_bound lt m k else n # m)"

definition map_find ::
  "(bytes \<Rightarrow> bytes \<Rightarrow> bool) \<Rightarrow> BytewiseSortedMap \<Rightarrow> bytes \<Rightarrow> (bytes \<times> bytes) option" where
  "map_find lt m k =
     (case map_lower_bound lt m k of
        [] \<Rightarrow> None
      | n # _ \<Rightarrow> if lt k (fst n) then None else Some n)"

definition map_absent ::
  "(bytes \<Rightarrow> bytes \<Rightarrow> bool) \<Rightarrow> (bytes \<times> bytes) option \<Rightarrow> bytes \<Rightarrow> bool" where
  "map_absent lt prev k = (case prev of None \<Rightarrow> True | Some p \<Rightarrow> lt (fst p) k)"

fun map_insert_from ::
  "(bytes \<Rightarrow> bytes \<Rightarrow> bool) \<Rightarrow> (bytes \<times> bytes) option \<Rightarrow> BytewiseSortedMap
     \<Rightarrow> bytes \<times> bytes \<Rightarrow> BytewiseSortedMap" where
  "map_insert_from lt prev [] kv = (if map_absent lt prev (fst kv) then [kv] else [])"
| "map_insert_from lt prev (n # m) kv =
     (if lt (fst kv) (fst n)
      then (if map_absent lt prev (fst kv) then kv # n # m else n # m)
      else n # map_insert_from lt (Some n) m kv)"

definition map_insert ::
  "(bytes \<Rightarrow> bytes \<Rightarrow> bool) \<Rightarrow> BytewiseSortedMap \<Rightarrow> bytes \<times> bytes \<Rightarrow> BytewiseSortedMap" where
  "map_insert lt m kv = map_insert_from lt None m kv"

definition AddStats :: "BytewiseSortedMap \<Rightarrow> bytes \<Rightarrow> 64 word \<Rightarrow> fault + BytewiseSortedMap" where
  "AddStats stats name val =
     (if map_find BytewiseLessThan stats name \<noteq> None
      then Inl (AssertionFailed ''stats.find(name) == stats.end()'')
      else (let dst = PutVarint64 val
            in Inr (map_insert BytewiseLessThan stats (name, dst))))"

text \<open>
  Modelled from the spec: the names of the statistics and of the meta blocks are declared
  in \<^verbatim>\<open>table/table\<close>, which is not among the sources.
\<close>

definition kRawKeySize :: bytes where "kRawKeySize = ''rocksdb.raw.key.size''"
definition kRawValueSize :: bytes where "kRawValueSize = ''rocksdb.raw.value.size''"
definition kDataSize :: bytes where "kDataSize = ''rocksdb.data.size''"
definition kIndexSize :: bytes where "kIndexSize = ''rocksdb.index.size''"
definition kNumEntries :: bytes where "kNumEntries = ''rocksdb.num.entries''"
definition kNumDataBlocks :: bytes where "kNumDataBlocks = ''rocksdb.num.data.blocks''"
definition kFilterBlockPrefix :: bytes where "kFilterBlockPrefix = ''filter.''"
definition kStatsBlock :: bytes where "kStatsBlock = ''rocksdb.stats''"

subsection \<open>Finish\<close>

text \<open>The six \<open>AddStats\<close> calls of \<open>Finish\<close>, in the order of the source.\<close>

fun AddStats_calls ::
  "BytewiseSortedMap \<Rightarrow> (bytes \<times> 64 word) list \<Rightarrow> fault + BytewiseSortedMap" where
  "AddStats_calls stats [] = Inr stats"
| "AddStats_calls stats ((name, val) # rest) =
     (case AddStats stats name val of
        Inl f \<Rightarrow> Inl f
      | Inr stats' \<Rightarrow> AddStats_calls stats' rest)"

definition Finish_stats :: "Env \<Rightarrow> TableBuilder \<Rightarrow> fault + BytewiseSortedMap" where
  "Finish_stats E r =
     AddStats_calls []
       [(kRawKeySize, raw_key_size r),
        (kRawValueSize, raw_value_size r),
        (kDataSize, data_size r),
        (kIndexSize, CurrentSizeEstimate E (index_block r) + of_nat kBlockTrailerSize),
        (kNumEntries, num_entries r),
        (kNumDataBlocks, num_data_blocks r)]"

definition block_of_map :: "int \<Rightarrow> BytewiseSortedMap \<Rightarrow> BlockBuilder" where
  "block_of_map interval m =
     fold (\<lambda>(k, v) b. BlockBuilder_Add k v b) m (BlockBuilder_new interval)"

text \<open>The filter block, written raw and only when the status is ok.\<close>

definition Finish_filter :: "Env \<Rightarrow> TableBuilder \<Rightarrow> BlockHandle \<times> TableBuilder" where
  "Finish_filter E r =
     (case filter_block r of
        Some fb \<Rightarrow>
          if ok r then WriteRawBlock (FilterBlock_Finish E fb) kNoCompression r
          else (BlockHandle_default, r)
      | None \<Rightarrow> (BlockHandle_default, r))"

text \<open>The last pending index entry, under the shortest successor of the last key.\<close>

definition Finish_pending :: "Env \<Rightarrow> TableBuilder \<Rightarrow> TableBuilder" where
  "Finish_pending E r =
     (if ok r \<and> pending_index_entry r then
        (let succ = FindShortSuccessor E (last_key r);
             handle_encoding = BlockHandle_EncodeTo (pending_handle r)
         in r\<lparr>last_key := succ,
               index_block := BlockBuilder_Add succ handle_encoding (index_block r),
               pending_index_entry := False\<rparr>)
      else r)"

text \<open>The stats block and the metaindex block.\<close>

definition Finish_meta ::
  "Env \<Rightarrow> BlockHandle \<Rightarrow> TableBuilder \<Rightarrow> fault + (BlockHandle \<times> TableBuilder)" where
  "Finish_meta E filter_block_handle r =
     (if \<not> ok r then Inr (BlockHandle_default, r)
      else
        (case (case filter_block r of
                 None \<Rightarrow> Inr []
               | Some _ \<Rightarrow>
                   (case filter_policy (options r) of
                      None \<Rightarrow> Inl NullDereference
                    | Some name \<Rightarrow>
                        Inr (map_insert BytewiseLessThan []
                               (kFilterBlockPrefix @ name,
                                BlockHandle_EncodeTo filter_block_handle)))) of
           Inl f \<Rightarrow> Inl f
         | Inr meta_block_handles \<Rightarrow>
             (case Finish_stats E r of
                Inl f \<Rightarrow> Inl f
              | Inr stats \<Rightarrow>
                  (case WriteBlock E
                          (block_of_map (block_restart_interval (options r)) stats) r of
                     Inl f \<Rightarrow> Inl f
                   | Inr (stats_block_handle, _, r1) \<Rightarrow>
                       (let meta_block_handles' =
                              map_insert BytewiseLessThan meta_block_handles
                                (kStatsBlock, BlockHandle_EncodeTo stats_block_handle)
                        in case WriteBlock E
                                  (block_of_map (block_restart_interval (options r1))
                                     meta_block_handles') r1 of
                             Inl f \<Rightarrow> Inl f
                           | Inr (metaindex_block_handle, _, r2) \<Rightarrow>
                               Inr (metaindex_block_handle, r2))))))"

text \<open>The index block.\<close>

definition Finish_index :: "Env \<Rightarrow> TableBuilder \<Rightarrow> fault + (BlockHandle \<times> TableBuilder)" where
  "Finish_index E r =
     (if \<not> ok r then Inr (BlockHandle_default, r)
      else
        (case WriteBlock E (index_block r) r of
           Inl f \<Rightarrow> Inl f
         | Inr (index_block_handle, block, r1) \<Rightarrow>
             Inr (index_block_handle, r1\<lparr>index_block := block\<rparr>)))"

text \<open>The footer.\<close>

definition Finish_footer :: "Env \<Rightarrow> BlockHandle \<Rightarrow> BlockHandle \<Rightarrow> TableBuilder \<Rightarrow> TableBuilder" where
  "Finish_footer E metaindex_block_handle index_block_handle r =
     (if \<not> ok r then r
      else
        (let footer_encoding = Footer_EncodeTo E metaindex_block_handle index_block_handle;
             (st, f) = file_Append footer_encoding (wfile r);
             r1 = r\<lparr>wfile := f, status := st\<rparr>
         in if st = OK then r1\<lparr>offset := offset r1 + of_nat (length footer_encoding)\<rparr>
            else r1))"

definition Finish :: "Env \<Rightarrow> TableBuilder \<Rightarrow> fault + (Status \<times> TableBuilder)" where
  "Finish E r =
     (case Flush E r of
        Inl f \<Rightarrow> Inl f
      | Inr r1 \<Rightarrow>
          if closed r1 then Inl (AssertionFailed ''!r->closed'')
          else
            (let r2 = r1\<lparr>closed := True\<rparr>;
                 (filter_block_handle, r3) = Finish_filter E r2;
                 r4 = Finish_pending E r3
             in case Finish_meta E filter_block_handle r4 of
                  Inl f \<Rightarrow> Inl f
                | Inr (metaindex_block_handle, r5) \<Rightarrow>
                    (case Finish_index E r5 of
                       Inl f \<Rightarrow> Inl f
                     | Inr (index_block_handle, r6) \<Rightarrow>
                         (let r7 = Finish_footer E metaindex_block_handle
                                     index_block_handle r6
                          in Inr (status r7, r7)))))"

text \<open>
  The fields of the builder that a write to the sink leaves alone: everything but the
  file, the offset, the status and the scratch buffer.
\<close>

definition same_but_sink :: "TableBuilder \<Rightarrow> TableBuilder \<Rightarrow> bool" where
  "same_but_sink r r' =
     (options r' = options r \<and> index_block_options r' = index_block_options r \<and>
      data_block r' = data_block r \<and> index_block r' = index_block r \<and>
      last_key r' = last_key r \<and> num_entries r' = num_entries r \<and>
      num_data_blocks r' = num_data_blocks r \<and> raw_key_size r' = raw_key_size r \<and>
      raw_value_size r' = raw_value_size r \<and> data_size r' = data_size r \<and>
      closed r' = closed r \<and> filter_block r' = filter_block r \<and>
      pending_index_entry r' = pending_index_entry r \<and>
      pending_handle r' = pending_handle r \<and> level r' = level r)"

text \<open>The invariant stated in \<open>Rep\<close>.\<close>

definition pending_inv :: "TableBuilder \<Rightarrow> bool" where
  "pending_inv r = (pending_index_entry r \<longrightarrow> BlockBuilder_empty (data_block r))"

subsection \<open>Sequences of calls\<close>

text \<open>
  A use of the builder is a sequence of calls from the constructor on. A call that breaks
  the contract of the builder is a fault, and ends the run.
\<close>

datatype builder_call = CallAdd bytes bytes | CallFlush | CallFinish | CallAbandon

fun call :: "Env \<Rightarrow> builder_call \<Rightarrow> TableBuilder \<Rightarrow> fault + TableBuilder" where
  "call E (CallAdd key val) r = Add E key val r"
| "call E CallFlush r = Flush E r"
| "call E CallFinish r = (case Finish E r of Inl f \<Rightarrow> Inl f | Inr (st, r') \<Rightarrow> Inr r')"
| "call E CallAbandon r = Abandon r"

fun calls :: "Env \<Rightarrow> builder_call list \<Rightarrow> TableBuilder \<Rightarrow> fault + TableBuilder" where
  "calls E [] r = Inr r"
| "calls E (c # cs) r = (case call E c r of Inl f \<Rightarrow> Inl f | Inr r' \<Rightarrow> calls E cs r')"

text \<open>The keys a sequence of calls adds, in order.\<close>

fun added_keys :: "builder_call list \<Rightarrow> bytes list" where
  "added_keys [] = []"
| "added_keys (CallAdd key val # cs) = key # added_keys cs"
| "added_keys (c # cs) = added_keys cs"

text \<open>
  A key sequence is strictly increasing when each key compares greater than the one
  before it, which is what \<open>Add\<close> asserts of a key and \<open>last_key\<close>.
\<close>

fun increasing :: "Env \<Rightarrow> bytes list \<Rightarrow> bool" where
  "increasing E [] = True"
| "increasing E [k] = True"
| "increasing E (k # k' # ks) = (Compare E k' k > 0 \<and> increasing E (k' # ks))"

text \<open>
  The contract of the comparator: \<open>Compare\<close> is a total order given by the sign of its
  result, \<open>FindShortestSeparator\<close> returns a key in \<open>[start, limit)\<close> when
  \<open>start < limit\<close>, and \<open>FindShortSuccessor\<close> returns a key that is not less than its
  argument.
\<close>

definition comparator_contract :: "Env \<Rightarrow> bool" where
  "comparator_contract E =
     ((\<forall>a. Compare E a a = 0) \<and>
      (\<forall>a b. (Compare E a b < 0) = (Compare E b a > 0)) \<and>
      (\<forall>a b c. Compare E a b \<le> 0 \<and> Compare E b c \<le> 0 \<longrightarrow> Compare E a c \<le> 0) \<and>
      (\<forall>a b c. Compare E a b \<le> 0 \<and> Compare E b c < 0 \<longrightarrow> Compare E a c < 0) \<and>
      (\<forall>a b c. Compare E a b < 0 \<and> Compare E b c \<le> 0 \<longrightarrow> Compare E a c < 0) \<and>
      (\<forall>a b. Compare E a b < 0 \<longrightarrow>
         Compare E a (FindShortestSeparator E a b) \<le> 0 \<and>
         Compare E (FindShortestSeparator E a b) b < 0) \<and>
      (\<forall>a. Compare E a (FindShortSuccessor E a) \<le> 0))"

text \<open>
  What the keys added so far say about an open builder whose status is ok: some key has
  been added iff the data block is not empty or an index entry is pending, and
  \<open>last_key\<close> is the last key added.
\<close>

definition key_inv :: "bytes list \<Rightarrow> TableBuilder \<Rightarrow> bool" where
  "key_inv ks r =
     (\<not> closed r \<and> ok r \<longrightarrow>
        ((ks \<noteq> []) = (pending_index_entry r \<or> entries (data_block r) \<noteq> [])) \<and>
        (ks \<noteq> [] \<longrightarrow> last_key r = last ks))"

text \<open>
  What a call that takes the builder from \<open>r\<close> to \<open>r'\<close> did on the file: the calls it
  added to the log. If these are the contents of a block, its trailer and a flush of the
  file, the call wrote a data block and made it pending; \<open>flushed_block\<close> is then the
  handle of that block. \<open>index_due\<close> is the handle whose index entry \<open>Add\<close> owes when it
  reaches the emission step: the one pending before the call, or else the one of the
  block the call itself flushed.
\<close>

definition new_file_ops :: "TableBuilder \<Rightarrow> TableBuilder \<Rightarrow> file_op list" where
  "new_file_ops r r' = drop (length (file_ops (wfile r))) (file_ops (wfile r'))"

definition flushed_block :: "TableBuilder \<Rightarrow> TableBuilder \<Rightarrow> BlockHandle option" where
  "flushed_block r r' =
     (case new_file_ops r r' of
        [FileAppend c, FileAppend t, FileFlush] \<Rightarrow>
          Some \<lparr>handle_offset = offset r, handle_size = of_nat (length c)\<rparr>
      | _ \<Rightarrow> None)"

definition index_due :: "TableBuilder \<Rightarrow> TableBuilder \<Rightarrow> BlockHandle option" where
  "index_due r r' =
     (if pending_index_entry r then Some (pending_handle r) else flushed_block r r')"

text \<open>
  In an open builder whose status is ok, every data block counted by \<open>num_data_blocks\<close>
  has its entry in the index block, but for the one that is pending.
\<close>

definition index_count_inv :: "TableBuilder \<Rightarrow> bool" where
  "index_count_inv r =
     (\<not> closed r \<and> ok r \<longrightarrow>
        of_nat (length (entries (index_block r)))
          + (if pending_index_entry r then 1 else 0) = num_data_blocks r)"

subsection \<open>A concrete environment\<close>

text \<open>
  An instance of the collaborators for evaluating the builder on concrete inputs: the
  bytewise order with key-shortening operations that return their first argument,
  no codec available, blocks serialised as the concatenation of their entries.
\<close>

definition example_env :: Env where
  "example_env =
     \<lparr>Compare = BytewiseCompare,
      FindShortestSeparator = (\<lambda>start limit. start),
      FindShortSuccessor = (\<lambda>k. k),
      Snappy_Compress = (\<lambda>raw. None),
      Zlib_Compress = (\<lambda>raw. None),
      BZip2_Compress = (\<lambda>raw. None),
      BlockBuilder_Finish = (\<lambda>b. concat (map (\<lambda>(k, v). k @ v) (entries b))),
      CurrentSizeEstimate = (\<lambda>b. of_nat (length (concat (map (\<lambda>(k, v). k @ v) (entries b))))),
      EstimateSizeAfterKV =
        (\<lambda>b k v. of_nat (length (concat (map (\<lambda>(k, v). k @ v) (entries b)))
                         + length k + length v)),
      FilterBlock_Finish = (\<lambda>fb. []),
      Footer_EncodeTo = (\<lambda>m i. BlockHandle_EncodeTo m @ BlockHandle_EncodeTo i)\<rparr>"

definition example_options :: Options where
  "example_options =
     \<lparr>block_size = 4, block_size_deviation = 10, block_restart_interval = 16,
      compression = kNoCompression, compression_per_level = [],
      filter_policy = None\<rparr>"

definition example_file :: WritableFile where
  "example_file = \<lparr>file_ops = [], file_results = []\<rparr>"

text \<open>A sink whose first call fails.\<close>

definition failing_file :: WritableFile where
  "failing_file = \<lparr>file_ops = [], file_results = [IOError ''disk full'']\<rparr>"

text \<open>
  A builder whose deviation is above 100 percent, holding one entry of three bytes.
\<close>

definition deviation_options :: Options where
  "deviation_options = example_options\<lparr>block_size_deviation := 150\<rparr>"

definition deviation_builder :: TableBuilder where
  "deviation_builder =
     Add_append ''a'' ''12'' (TableBuilder_new deviation_options example_file 0)"

definition example_builder :: TableBuilder where
  "example_builder = TableBuilder_new example_options example_file 0"

section \<open>The write batch and its replay\<close>

text \<open>
  Modelled from the spec: the write batch (\<^verbatim>\<open>db/write_batch\<close>) is not among the sources,
  only its test is. A batch is its serialised form: a header of 12 bytes (the sequence
  base as 8 little-endian bytes, the record count as 4) followed by the records. A
  record is a tag byte and one or two length-prefixed strings; lengths are 32-bit
  varints.
\<close>

datatype ValueType = kTypeDeletion | kTypeValue | kTypeLogData | kTypeMerge

fun type_tag :: "ValueType \<Rightarrow> char" where
  "type_tag kTypeDeletion = char_of (0::nat)"
| "type_tag kTypeValue = char_of (1::nat)"
| "type_tag kTypeLogData = char_of (2::nat)"
| "type_tag kTypeMerge = char_of (3::nat)"

definition tag_type :: "char \<Rightarrow> ValueType option" where
  "tag_type c =
     (if c = char_of (0::nat) then Some kTypeDeletion
      else if c = char_of (1::nat) then Some kTypeValue
      else if c = char_of (2::nat) then Some kTypeLogData
      else if c = char_of (3::nat) then Some kTypeMerge
      else None)"

definition kHeader :: nat where
  "kHeader = 12"

record WriteBatch =
  rep :: bytes

definition WriteBatch_new :: WriteBatch where
  "WriteBatch_new = \<lparr>rep = replicate kHeader (char_of (0::nat))\<rparr>"

definition Clear :: "WriteBatch \<Rightarrow> WriteBatch" where
  "Clear b = WriteBatch_new"

definition Sequence :: "WriteBatch \<Rightarrow> 64 word" where
  "Sequence b = DecodeFixed64 (rep b)"

definition SetSequence :: "WriteBatch \<Rightarrow> 64 word \<Rightarrow> WriteBatch" where
  "SetSequence b seq = b\<lparr>rep := EncodeFixed64 seq @ drop 8 (rep b)\<rparr>"

definition Count :: "WriteBatch \<Rightarrow> 32 word" where
  "Count b = DecodeFixed32 (drop 8 (rep b))"

definition SetCount :: "WriteBatch \<Rightarrow> 32 word \<Rightarrow> WriteBatch" where
  "SetCount b n = b\<lparr>rep := take 8 (rep b) @ EncodeFixed32 n @ drop kHeader (rep b)\<rparr>"

definition Contents :: "WriteBatch \<Rightarrow> bytes" where
  "Contents b = rep b"

definition SetContents :: "WriteBatch \<Rightarrow> bytes \<Rightarrow> WriteBatch" where
  "SetContents b contents = b\<lparr>rep := contents\<rparr>"

definition PutLengthPrefixedSlice :: "bytes \<Rightarrow> bytes" where
  "PutLengthPrefixedSlice s = PutVarint32 (of_nat (length s)) @ s"

definition Put :: "bytes \<Rightarrow> bytes \<Rightarrow> WriteBatch \<Rightarrow> WriteBatch" where
  "Put key val b =
     (let b1 = SetCount b (Count b + 1)
      in b1\<lparr>rep := rep b1 @ [type_tag kTypeValue] @ PutLengthPrefixedSlice key
                       @ PutLengthPrefixedSlice val\<rparr>)"

definition Delete :: "bytes \<Rightarrow> WriteBatch \<Rightarrow> WriteBatch" where
  "Delete key b =
     (let b1 = SetCount b (Count b + 1)
      in b1\<lparr>rep := rep b1 @ [type_tag kTypeDeletion] @ PutLengthPrefixedSlice key\<rparr>)"

definition Merge :: "bytes \<Rightarrow> bytes \<Rightarrow> WriteBatch \<Rightarrow> WriteBatch" where
  "Merge key val b =
     (let b1 = SetCount b (Count b + 1)
      in b1\<lparr>rep := rep b1 @ [type_tag kTypeMerge] @ PutLengthPrefixedSlice key
                       @ PutLengthPrefixedSlice val\<rparr>)"

definition PutLogData :: "bytes \<Rightarrow> WriteBatch \<Rightarrow> WriteBatch" where
  "PutLogData blob b =
     b\<lparr>rep := rep b @ [type_tag kTypeLogData] @ PutLengthPrefixedSlice blob\<rparr>"

text \<open>
  \<open>Append dst src\<close> adds the count of \<open>src\<close> to that of \<open>dst\<close> and concatenates the
  records of \<open>src\<close> onto \<open>dst\<close>; \<open>src\<close> is left as it is.
\<close>

definition Append :: "WriteBatch \<Rightarrow> WriteBatch \<Rightarrow> WriteBatch" where
  "Append dst src =
     (let d1 = SetCount dst (Count dst + Count src)
      in d1\<lparr>rep := rep d1 @ drop kHeader (rep src)\<rparr>)"

subsection \<open>Decoding\<close>

text \<open>
  A 32-bit varint is at most five bytes: the loop stops with an error when the input ends
  or when the shift passes 28.
\<close>

fun GetVarint32_from :: "nat \<Rightarrow> nat \<Rightarrow> bytes \<Rightarrow> (nat \<times> bytes) option" where
  "GetVarint32_from shift result [] = None"
| "GetVarint32_from shift result (b # bs) =
     (if shift > 28 then None
      else if (of_char b :: nat) \<ge> 128
      then GetVarint32_from (shift + 7) (result + (of_char b - 128) * 2 ^ shift) bs
      else Some (result + of_char b * 2 ^ shift, bs))"

definition GetVarint32 :: "bytes \<Rightarrow> (32 word \<times> bytes) option" where
  "GetVarint32 input =
     (case GetVarint32_from 0 0 input of
        None \<Rightarrow> None
      | Some (v, rest) \<Rightarrow> Some (of_nat v, rest))"

definition GetLengthPrefixedSlice :: "bytes \<Rightarrow> (bytes \<times> bytes) option" where
  "GetLengthPrefixedSlice input =
     (case GetVarint32 input of
        None \<Rightarrow> None
      | Some (len, rest) \<Rightarrow>
          if length rest \<ge> unat len then Some (take (unat len) rest, drop (unat len) rest)
          else None)"

lemma GetVarint32_from_shorter:
  "GetVarint32_from shift result input = Some (v, rest) \<Longrightarrow> length rest < length input"
  by (induction shift result input rule: GetVarint32_from.induct)
     (auto split: if_splits)

lemma GetLengthPrefixedSlice_shorter:
  "GetLengthPrefixedSlice input = Some (s, rest) \<Longrightarrow> length rest < length input"
  by (auto simp: GetLengthPrefixedSlice_def GetVarint32_def
      split: option.splits if_splits dest!: GetVarint32_from_shorter)

subsection \<open>Iterate and InsertInto\<close>

text \<open>
  \<open>Iterate\<close> walks the records after the header and calls the handler once per record,
  in order; on a record that cannot be decoded it stops with a corruption error that
  names the kind of the record. The model returns the calls made on the handler, in
  order, and the final status.
\<close>

datatype handler_call =
    HandlerPut bytes bytes
  | HandlerDelete bytes
  | HandlerMerge bytes bytes
  | HandlerLogData bytes

fun then_continue ::
  "handler_call \<Rightarrow> handler_call list \<times> Status \<Rightarrow> handler_call list \<times> Status" where
  "then_continue c (cs, st) = (c # cs, st)"

function Iterate_loop :: "bytes \<Rightarrow> handler_call list \<times> Status" where
  "Iterate_loop [] = ([], OK)"
| "Iterate_loop (tag # input) =
     (case tag_type tag of
        Some kTypeValue \<Rightarrow>
          (case GetLengthPrefixedSlice input of
             None \<Rightarrow> ([], Corruption ''bad WriteBatch Put'')
           | Some (key, input1) \<Rightarrow>
               (case GetLengthPrefixedSlice input1 of
                  None \<Rightarrow> ([], Corruption ''bad WriteBatch Put'')
                | Some (val, input2) \<Rightarrow>
                    then_continue (HandlerPut key val) (Iterate_loop input2)))
      | Some kTypeDeletion \<Rightarrow>
          (case GetLengthPrefixedSlice input of
             None \<Rightarrow> ([], Corruption ''bad WriteBatch Delete'')
           | Some (key, input1) \<Rightarrow>
               then_continue (HandlerDelete key) (Iterate_loop input1))
      | Some kTypeMerge \<Rightarrow>
          (case GetLengthPrefixedSlice input of
             None \<Rightarrow> ([], Corruption ''bad WriteBatch Merge'')
           | Some (key, input1) \<Rightarrow>
               (case GetLengthPrefixedSlice input1 of
                  None \<Rightarrow> ([], Corruption ''bad WriteBatch Merge'')
                | Some (val, input2) \<Rightarrow>
                    then_continue (HandlerMerge key val) (Iterate_loop input2)))
      | Some kTypeLogData \<Rightarrow>
          (case GetLengthPrefixedSlice input of
             None \<Rightarrow> ([], Corruption ''bad WriteBatch Blob'')
           | Some (blob, input1) \<Rightarrow>
               then_continue (HandlerLogData blob) (Iterate_loop input1))
      | None \<Rightarrow> ([], Corruption ''unknown WriteBatch tag''))"
  by pat_completeness auto
termination
  by (relation "measure length")
     (auto dest!: GetLengthPrefixedSlice_shorter)

definition Iterate :: "WriteBatch \<Rightarrow> handler_call list \<times> Status" where
  "Iterate b = Iterate_loop (drop kHeader (rep b))"

text \<open>
  The memtable is an external collaborator: the model keeps the entries inserted, in the
  order of insertion. The inserting handler gives each put, delete and merge the current
  sequence number and advances it; log data is not inserted and leaves the number alone.
\<close>

type_synonym MemTable = "(64 word \<times> ValueType \<times> bytes \<times> bytes) list"

fun MemTableInserter :: "handler_call \<Rightarrow> 64 word \<times> MemTable \<Rightarrow> 64 word \<times> MemTable" where
  "MemTableInserter (HandlerPut key val) (seq, mem) =
     (seq + 1, mem @ [(seq, kTypeValue, key, val)])"
| "MemTableInserter (HandlerDelete key) (seq, mem) =
     (seq + 1, mem @ [(seq, kTypeDeletion, key, [])])"
| "MemTableInserter (HandlerMerge key val) (seq, mem) =
     (seq + 1, mem @ [(seq, kTypeMerge, key, val)])"
| "MemTableInserter (HandlerLogData blob) (seq, mem) = (seq, mem)"

definition InsertInto :: "WriteBatch \<Rightarrow> MemTable \<Rightarrow> Status \<times> MemTable" where
  "InsertInto b mem =
     (let (cs, st) = Iterate b
      in (st, snd (fold MemTableInserter cs (Sequence b, mem))))"

subsection \<open>Batches built through the interface\<close>

text \<open>
  The four mutators as data, to speak of the records of a batch: a batch built from the
  empty one by a list of them, the encoding of one record, and what replay is to insert
  for it.
\<close>

datatype batch_op =
    OpPut bytes bytes
  | OpDelete bytes
  | OpMerge bytes bytes
  | OpLogData bytes

fun apply_op :: "batch_op \<Rightarrow> WriteBatch \<Rightarrow> WriteBatch" where
  "apply_op (OpPut key val) b = Put key val b"
| "apply_op (OpDelete key) b = Delete key b"
| "apply_op (OpMerge key val) b = Merge key val b"
| "apply_op (OpLogData blob) b = PutLogData blob b"

definition batch_of :: "64 word \<Rightarrow> batch_op list \<Rightarrow> WriteBatch" where
  "batch_of seq ops = SetSequence (fold apply_op ops WriteBatch_new) seq"

fun encode_op :: "batch_op \<Rightarrow> bytes" where
  "encode_op (OpPut key val) =
     type_tag kTypeValue # PutLengthPrefixedSlice key @ PutLengthPrefixedSlice val"
| "encode_op (OpDelete key) = type_tag kTypeDeletion # PutLengthPrefixedSlice key"
| "encode_op (OpMerge key val) =
     type_tag kTypeMerge # PutLengthPrefixedSlice key @ PutLengthPrefixedSlice val"
| "encode_op (OpLogData blob) = type_tag kTypeLogData # PutLengthPrefixedSlice blob"

fun counted :: "batch_op \<Rightarrow> bool" where
  "counted (OpLogData blob) = False"
| "counted op = True"

text \<open>The strings of a record are short enough for a 32-bit length.\<close>

fun op_fits :: "batch_op \<Rightarrow> bool" where
  "op_fits (OpPut key val) = (length key < 2 ^ 32 \<and> length val < 2 ^ 32)"
| "op_fits (OpDelete key) = (length key < 2 ^ 32)"
| "op_fits (OpMerge key val) = (length key < 2 ^ 32 \<and> length val < 2 ^ 32)"
| "op_fits (OpLogData blob) = (length blob < 2 ^ 32)"

fun entry_of :: "64 word \<Rightarrow> batch_op \<Rightarrow> 64 word \<times> ValueType \<times> bytes \<times> bytes" where
  "entry_of seq (OpPut key val) = (seq, kTypeValue, key, val)"
| "entry_of seq (OpDelete key) = (seq, kTypeDeletion, key, [])"
| "entry_of seq (OpMerge key val) = (seq, kTypeMerge, key, val)"
| "entry_of seq (OpLogData blob) = (seq, kTypeLogData, blob, [])"

text \<open>
  The entries the spec asks of replay: the \<open>i\<close>-th counted record, counting from 0,
  under the sequence number \<open>seq + i\<close>.
\<close>

definition expected_entries :: "64 word \<Rightarrow> batch_op list \<Rightarrow> MemTable" where
  "expected_entries seq ops =
     map (\<lambda>(i, op). entry_of (seq + of_nat i) op) (enumerate 0 (filter counted ops))"

text \<open>The handler call that a record gives rise to, and whether a call inserts.\<close>

fun call_of :: "batch_op \<Rightarrow> handler_call" where
  "call_of (OpPut key val) = HandlerPut key val"
| "call_of (OpDelete key) = HandlerDelete key"
| "call_of (OpMerge key val) = HandlerMerge key val"
| "call_of (OpLogData blob) = HandlerLogData blob"

fun inserts :: "handler_call \<Rightarrow> bool" where
  "inserts (HandlerLogData blob) = False"
| "inserts c = True"

text \<open>A batch holds at least its header.\<close>

definition header_ok :: "WriteBatch \<Rightarrow> bool" where
  "header_ok b = (length (rep b) \<ge> kHeader)"

fun bad_record :: "batch_op \<Rightarrow> Status" where
  "bad_record (OpPut key val) = Corruption ''bad WriteBatch Put''"
| "bad_record (OpDelete key) = Corruption ''bad WriteBatch Delete''"
| "bad_record (OpMerge key val) = Corruption ''bad WriteBatch Merge''"
| "bad_record (OpLogData blob) = Corruption ''bad WriteBatch Blob''"

section \<open>Properties of the table builder\<close>

subsection \<open>Evaluation and frame lemmas\<close>

lemma PutVarint_small: "n < 128 \<Longrightarrow> PutVarint n = [char_of n]"
  by (simp add: PutVarint.simps)

lemmas builder_eval =
  Add_def Add_pending_def Add_append_def Flush_def Flush_file_def Flush_filter_def
  Flush_counters_def WriteBlock_def WriteBlock_type_def WriteBlock_index_def
  WriteRawBlock_def file_Append_def file_Flush_def file_call_def ok_def
  BlockBuilder_empty_def BlockBuilder_Add_def BlockBuilder_Reset_def BlockBuilder_new_def
  TableBuilder_new_def example_env_def example_options_def example_file_def
  example_builder_def Let_def kBlockTrailerSize_def

lemma crc_Extend_Value: "crc_Extend (crc_Value a) b = crc_Value (a @ b)"
  by (simp add: crc_Value_def crc_Extend_def word_bw_assocs)

lemma le_encode_length: "length (le_encode n v) = n"
  by (induction n arbitrary: v) simp_all

lemma EncodeFixed32_length: "length (EncodeFixed32 v) = 4"
  by (simp add: EncodeFixed32_def le_encode_length)

lemma WriteRawBlock_frame: "same_but_sink r (snd (WriteRawBlock c t r))"
  by (simp add: same_but_sink_def WriteRawBlock_def Let_def split: prod.splits)

lemma WriteRawBlock_ops:
  "\<exists>rest. file_ops (wfile (snd (WriteRawBlock c t r)))
      = file_ops (wfile r) @ FileAppend c # rest"
  by (auto simp: WriteRawBlock_def Let_def file_Append_def file_call_def
      split: prod.splits list.splits)

lemma WriteBlock_frame:
  assumes "WriteBlock E b r = Inr (h, b', r')"
  shows "entries b' = [] \<and> restart_interval b' = restart_interval b \<and> ok r \<and>
     same_but_sink r r' \<and>
     (\<exists>c rest. file_ops (wfile r') = file_ops (wfile r) @ FileAppend c # rest)"
proof -
  from assms have okr: "ok r" by (auto simp: WriteBlock_def split: if_splits)
  from assms okr obtain type where ty: "WriteBlock_type (options r) (level r) = Inr type"
    by (auto simp: WriteBlock_def Let_def split: sum.splits)
  obtain c t where ct: "WriteBlock_contents E type (BlockBuilder_Finish E b) = (c, t)"
    by fastforce
  from assms okr ty ct have b': "b' = BlockBuilder_Reset b"
    and r': "r' = (snd (WriteRawBlock c t r))\<lparr>compressed_output := []\<rparr>"
    by (auto simp: WriteBlock_def Let_def split: prod.splits)
  have "same_but_sink r r'"
    using WriteRawBlock_frame [of r c t] by (simp add: r' same_but_sink_def)
  moreover have "\<exists>c rest. file_ops (wfile r') = file_ops (wfile r) @ FileAppend c # rest"
    using WriteRawBlock_ops [of c t r] by (auto simp: r')
  ultimately show ?thesis using b' okr
    by (simp add: BlockBuilder_Reset_def)
qed

lemma Flush_noop:
  "\<not> closed r \<Longrightarrow> \<not> ok r \<or> entries (data_block r) = [] \<Longrightarrow> Flush E r = Inr r"
  by (auto simp: Flush_def BlockBuilder_empty_def)

lemma Flush_file_fields:
  "data_block (Flush_file r) = data_block r \<and> index_block (Flush_file r) = index_block r \<and>
   last_key (Flush_file r) = last_key r \<and> closed (Flush_file r) = closed r \<and>
   options (Flush_file r) = options r \<and> level (Flush_file r) = level r \<and>
   offset (Flush_file r) = offset r \<and> pending_handle (Flush_file r) = pending_handle r \<and>
   (pending_index_entry (Flush_file r) = (ok r \<or> pending_index_entry r)) \<and>
   (ok (Flush_file r) \<longrightarrow> ok r) \<and>
   file_ops (wfile (Flush_file r)) = file_ops (wfile r) @ (if ok r then [FileFlush] else [])"
  by (simp add: Flush_file_def ok_def file_Flush_def file_call_def split: prod.splits list.splits)

lemma Flush_filter_fields:
  "data_block (Flush_filter r) = data_block r \<and> index_block (Flush_filter r) = index_block r \<and>
   last_key (Flush_filter r) = last_key r \<and> closed (Flush_filter r) = closed r \<and>
   options (Flush_filter r) = options r \<and> level (Flush_filter r) = level r \<and>
   offset (Flush_filter r) = offset r \<and> pending_handle (Flush_filter r) = pending_handle r \<and>
   pending_index_entry (Flush_filter r) = pending_index_entry r \<and>
   status (Flush_filter r) = status r \<and> wfile (Flush_filter r) = wfile r"
  by (simp add: Flush_filter_def split: option.splits)

lemma Flush_counters_fields:
  "data_block (Flush_counters r) = data_block r \<and> index_block (Flush_counters r) = index_block r \<and>
   last_key (Flush_counters r) = last_key r \<and> closed (Flush_counters r) = closed r \<and>
   options (Flush_counters r) = options r \<and> level (Flush_counters r) = level r \<and>
   offset (Flush_counters r) = offset r \<and> pending_handle (Flush_counters r) = pending_handle r \<and>
   pending_index_entry (Flush_counters r) = pending_index_entry r \<and>
   status (Flush_counters r) = status r \<and> wfile (Flush_counters r) = wfile r"
  by (simp add: Flush_counters_def)

lemma WriteRawBlock_handle:
  "fst (WriteRawBlock c t r)
     = \<lparr>handle_offset = offset r, handle_size = of_nat (length c)\<rparr>"
  by (simp add: WriteRawBlock_def Let_def split: prod.splits)

lemma WriteRawBlock_ok_ops:
  "status (snd (WriteRawBlock c t r)) = OK \<Longrightarrow>
     \<exists>tr. file_ops (wfile (snd (WriteRawBlock c t r)))
        = file_ops (wfile r) @ [FileAppend c, FileAppend tr]"
  by (auto simp: WriteRawBlock_def Let_def file_Append_def file_call_def
      split: prod.splits list.splits if_splits)

lemma WriteBlock_ok_ops:
  assumes "WriteBlock E b r = Inr (h, b', r')" "ok r'"
  shows "\<exists>c tr. file_ops (wfile r') = file_ops (wfile r) @ [FileAppend c, FileAppend tr] \<and>
           h = \<lparr>handle_offset = offset r, handle_size = of_nat (length c)\<rparr>"
proof -
  from assms have okr: "ok r" by (auto simp: WriteBlock_def split: if_splits)
  from assms okr obtain type where ty: "WriteBlock_type (options r) (level r) = Inr type"
    by (auto simp: WriteBlock_def Let_def split: sum.splits)
  obtain c t where ct: "WriteBlock_contents E type (BlockBuilder_Finish E b) = (c, t)"
    by fastforce
  from assms okr ty ct have h: "h = fst (WriteRawBlock c t r)"
    and r': "r' = (snd (WriteRawBlock c t r))\<lparr>compressed_output := []\<rparr>"
    by (auto simp: WriteBlock_def Let_def split: prod.splits)
  from r' assms(2) have "status (snd (WriteRawBlock c t r)) = OK"
    by (simp add: ok_def)
  from WriteRawBlock_ok_ops [OF this] show ?thesis
    by (auto simp: r' h WriteRawBlock_handle)
qed

text \<open>What a call of Flush that returns does.\<close>

lemma Flush_cases:
  assumes "Flush E r = Inr r'"
  shows "\<not> closed r \<and>
    ((r' = r \<and> (\<not> ok r \<or> entries (data_block r) = [])) \<or>
     (ok r \<and> entries (data_block r) \<noteq> [] \<and> \<not> pending_index_entry r \<and>
      entries (data_block r') = [] \<and>
      last_key r' = last_key r \<and> index_block r' = index_block r \<and> closed r' = closed r \<and>
      options r' = options r \<and> level r' = level r \<and>
      (\<exists>c rest. file_ops (wfile r') = file_ops (wfile r) @ FileAppend c # rest) \<and>
      (pending_index_entry r' \<longrightarrow>
         (\<exists>c t. file_ops (wfile r')
                  = file_ops (wfile r) @ [FileAppend c, FileAppend t, FileFlush] \<and>
                pending_handle r'
                  = \<lparr>handle_offset = offset r, handle_size = of_nat (length c)\<rparr>))))"
proof -
  from assms have nc: "\<not> closed r" by (auto simp: Flush_def split: if_splits)
  show ?thesis
  proof (cases "\<not> ok r \<or> entries (data_block r) = []")
    case True
    with assms nc Flush_noop [of r E] show ?thesis by auto
  next
    case False
    with assms nc have np: "\<not> pending_index_entry r"
      by (auto simp: Flush_def BlockBuilder_empty_def split: if_splits)
    from assms nc False np obtain h b1 r1 where
      wb: "WriteBlock E (data_block r) r = Inr (h, b1, r1)"
      by (auto simp: Flush_def BlockBuilder_empty_def split: sum.splits)
    note fr = WriteBlock_frame [OF wb]
    from assms nc False np wb have r':
      "r' = Flush_counters (Flush_filter (Flush_file
                    (r1\<lparr>data_block := b1, pending_handle := h\<rparr>)))"
      by (auto simp: Flush_def BlockBuilder_empty_def)
    from fr obtain c rest where
      ops: "file_ops (wfile r1) = file_ops (wfile r) @ FileAppend c # rest" by blast
    have "file_ops (wfile r') = file_ops (wfile r) @ FileAppend c # rest
            @ (if ok r1 then [FileFlush] else [])"
      by (simp add: r' Flush_counters_fields Flush_filter_fields Flush_file_fields ops ok_def)
    then have 1: "\<exists>c rest. file_ops (wfile r') = file_ops (wfile r) @ FileAppend c # rest"
      by blast
    have 2: "pending_index_entry r' \<longrightarrow>
         (\<exists>c t. file_ops (wfile r')
                  = file_ops (wfile r) @ [FileAppend c, FileAppend t, FileFlush] \<and>
                pending_handle r'
                  = \<lparr>handle_offset = offset r, handle_size = of_nat (length c)\<rparr>)"
    proof
      assume "pending_index_entry r'"
      then have ok1: "ok r1"
        using np fr
        by (simp add: r' Flush_counters_fields Flush_filter_fields Flush_file_fields
            same_but_sink_def ok_def)
      from WriteBlock_ok_ops [OF wb ok1] obtain c tr where
        "file_ops (wfile r1) = file_ops (wfile r) @ [FileAppend c, FileAppend tr]"
        "h = \<lparr>handle_offset = offset r, handle_size = of_nat (length c)\<rparr>"
        by blast
      then show "\<exists>c t. file_ops (wfile r')
                  = file_ops (wfile r) @ [FileAppend c, FileAppend t, FileFlush] \<and>
                pending_handle r'
                  = \<lparr>handle_offset = offset r, handle_size = of_nat (length c)\<rparr>"
        using ok1
        by (simp add: r' Flush_counters_fields Flush_filter_fields Flush_file_fields ok_def)
    qed
    with 1 fr False np nc show ?thesis
      by (simp add: r' Flush_counters_fields Flush_filter_fields Flush_file_fields
          same_but_sink_def)
  qed
qed

lemma Add_pending_cases:
  assumes "Add_pending E key r = Inr r2"
  shows "\<not> pending_index_entry r2 \<and> data_block r2 = data_block r \<and> wfile r2 = wfile r \<and>
     status r2 = status r \<and> closed r2 = closed r \<and> options r2 = options r \<and>
     level r2 = level r \<and>
     (if pending_index_entry r
      then entries (data_block r) = [] \<and>
           entries (index_block r2) = entries (index_block r)
             @ [(FindShortestSeparator E (last_key r) key,
                 BlockHandle_EncodeTo (pending_handle r))]
      else r2 = r)"
  using assms
  by (auto simp: Add_pending_def Let_def BlockBuilder_empty_def BlockBuilder_Add_def
      split: if_splits)

lemma Add_append_fields:
  "entries (data_block (Add_append key val r)) = entries (data_block r) @ [(key, val)] \<and>
   last_key (Add_append key val r) = key \<and>
   index_block (Add_append key val r) = index_block r \<and>
   pending_index_entry (Add_append key val r) = pending_index_entry r \<and>
   wfile (Add_append key val r) = wfile r \<and> status (Add_append key val r) = status r \<and>
   closed (Add_append key val r) = closed r \<and> options (Add_append key val r) = options r \<and>
   level (Add_append key val r) = level r"
  by (simp add: Add_append_def Let_def BlockBuilder_Add_def split: option.splits)

text \<open>The steps of a call of Add that gets past its guards.\<close>

lemma Add_steps:
  assumes "Add E key val r = Inr r'" "ok r"
  shows "\<not> closed r \<and>
     (\<exists>r1 r2.
        (if CurrentSizeEstimate E (data_block r) \<ge> block_size (options r) \<or>
            (EstimateSizeAfterKV E (data_block r) key val > block_size (options r) \<and>
             block_size_deviation (options r) > 0 \<and>
             CurrentSizeEstimate E (data_block r) * 100 >
               block_size (options r) * word_of_int (100 - block_size_deviation (options r)))
         then Flush E r else Inr r) = Inr r1 \<and>
        Add_pending E key r1 = Inr r2 \<and> r' = Add_append key val r2)"
  using assms
  by (auto simp: Add_def Let_def split: if_splits sum.splits)

lemma flush_condition_in_range:
  fixes cur after B :: "64 word" and d :: int
  assumes "0 \<le> d" "d \<le> 100" "unat cur * 100 < 2 ^ 64" "unat B * nat (100 - d) < 2 ^ 64"
  shows "(cur \<ge> B \<or> (after > B \<and> d > 0 \<and> cur * 100 > B * word_of_int (100 - d)))
     \<longleftrightarrow> (unat cur \<ge> unat B \<or>
          (unat after > unat B \<and> d > 0 \<and> int (unat cur) * 100 > int (unat B) * (100 - d)))"
proof -
  have 1: "unat (cur * 100) = unat cur * 100"
    using assms(3) by (simp add: unat_word_ariths)
  define n where "n = nat (100 - d)"
  have w: "(word_of_int (100 - d) :: 64 word) = of_nat n"
    using assms(2) by (simp add: n_def)
  have "n < 2 ^ 64" using assms(1) by (simp add: n_def)
  then have u: "unat (of_nat n :: 64 word) = n"
    by (simp add: unat_of_nat)
  have "unat (B * of_nat n) = unat B * n"
    using assms(4) u by (simp add: unat_word_ariths n_def)
  then have 2: "unat (B * word_of_int (100 - d)) = unat B * nat (100 - d)"
    by (simp only: w n_def)
  have 3: "(int (unat cur) * 100 > int (unat B) * (100 - d))
     \<longleftrightarrow> unat cur * 100 > unat B * nat (100 - d)"
  proof -
    have "int (unat B * nat (100 - d)) = int (unat B) * (100 - d)"
      using assms(2) by simp
    moreover have "int (unat cur * 100) = int (unat cur) * 100" by simp
    ultimately show ?thesis by (metis of_nat_less_iff)
  qed
  show ?thesis
    by (simp only: word_le_nat_alt word_less_nat_alt 1 2 3)
qed

lemma WriteBlock_ok_contents:
  assumes "WriteBlock E b r = Inr (h, b', r')" "ok r'"
  shows "\<exists>type tr. WriteBlock_type (options r) (level r) = Inr type \<and>
           file_ops (wfile r')
             = file_ops (wfile r)
               @ [FileAppend (fst (WriteBlock_contents E type (BlockBuilder_Finish E b))),
                  FileAppend tr]"
proof -
  from assms have okr: "ok r" by (auto simp: WriteBlock_def split: if_splits)
  from assms okr obtain type where ty: "WriteBlock_type (options r) (level r) = Inr type"
    by (auto simp: WriteBlock_def Let_def split: sum.splits)
  obtain c t where ct: "WriteBlock_contents E type (BlockBuilder_Finish E b) = (c, t)"
    by fastforce
  from assms okr ty ct have
    r': "r' = (snd (WriteRawBlock c t r))\<lparr>compressed_output := []\<rparr>"
    by (auto simp: WriteBlock_def Let_def split: prod.splits)
  from r' assms(2) have "status (snd (WriteRawBlock c t r)) = OK"
    by (simp add: ok_def)
  from WriteRawBlock_ok_ops [OF this] show ?thesis
    by (auto simp: r' ty ct)
qed

lemma Flush_establishes_pending:
  assumes "Flush E r = Inr r'" "\<not> pending_index_entry r" "pending_index_entry r'"
  shows "entries (data_block r) \<noteq> [] \<and> entries (data_block r') = [] \<and>
    (\<exists>type tr. WriteBlock_type (options r) (level r) = Inr type \<and>
       file_ops (wfile r')
         = file_ops (wfile r)
           @ [FileAppend (fst (WriteBlock_contents E type (BlockBuilder_Finish E (data_block r)))),
              FileAppend tr, FileFlush])"
proof -
  from Flush_cases [OF assms(1)] assms(2,3) have
    ne: "ok r" "entries (data_block r) \<noteq> []" "entries (data_block r') = []" "\<not> closed r"
    by auto
  with assms obtain h b1 r1 where
    wb: "WriteBlock E (data_block r) r = Inr (h, b1, r1)"
    by (auto simp: Flush_def BlockBuilder_empty_def split: sum.splits)
  with assms ne have r':
      "r' = Flush_counters (Flush_filter (Flush_file
                    (r1\<lparr>data_block := b1, pending_handle := h\<rparr>)))"
    by (auto simp: Flush_def BlockBuilder_empty_def)
  note fr = WriteBlock_frame [OF wb]
  from assms(2,3) fr have ok1: "ok r1"
    by (simp add: r' Flush_counters_fields Flush_filter_fields Flush_file_fields
            same_but_sink_def ok_def)
  from WriteBlock_ok_contents [OF wb ok1] ok1 ne show ?thesis
    by (auto simp add: r' Flush_counters_fields Flush_filter_fields Flush_file_fields ok_def)
qed


lemma Finish_filter_frame: "same_but_sink r (snd (Finish_filter E r))"
  using WriteRawBlock_frame
  by (auto simp: Finish_filter_def same_but_sink_def split: option.splits)

lemma Finish_pending_fields:
  "data_block (Finish_pending E r) = data_block r \<and>
   closed (Finish_pending E r) = closed r \<and>
   wfile (Finish_pending E r) = wfile r \<and> status (Finish_pending E r) = status r \<and>
   options (Finish_pending E r) = options r \<and> level (Finish_pending E r) = level r \<and>
   (pending_index_entry (Finish_pending E r) \<longrightarrow> pending_index_entry r) \<and>
   entries (index_block (Finish_pending E r))
     = entries (index_block r)
       @ (if ok r \<and> pending_index_entry r
          then [(FindShortSuccessor E (last_key r), BlockHandle_EncodeTo (pending_handle r))]
          else [])"
  by (simp add: Finish_pending_def Let_def BlockBuilder_Add_def)

lemma same_but_sink_refl: "same_but_sink r r"
  by (simp add: same_but_sink_def)

lemma same_but_sink_trans: "same_but_sink a b \<Longrightarrow> same_but_sink b c \<Longrightarrow> same_but_sink a c"
  by (simp add: same_but_sink_def)

lemma Finish_meta_frame:
  assumes "Finish_meta E fh r = Inr (mh, r')"
  shows "same_but_sink r r'"
proof (cases "ok r")
  case False
  with assms show ?thesis by (simp add: Finish_meta_def same_but_sink_refl)
next
  case True
  with assms obtain b1 b2 h1 x1 r1 x2 where
    "WriteBlock E b1 r = Inr (h1, x1, r1)" "WriteBlock E b2 r1 = Inr (mh, x2, r')"
    by (auto simp: Finish_meta_def Let_def split: sum.splits option.splits prod.splits)
  then show ?thesis
    using WriteBlock_frame same_but_sink_trans by blast
qed

lemma Finish_index_fields:
  assumes "Finish_index E r = Inr (ih, r')"
  shows "data_block r' = data_block r \<and> pending_index_entry r' = pending_index_entry r \<and>
     closed r' = closed r"
proof (cases "ok r")
  case False
  with assms show ?thesis by (simp add: Finish_index_def)
next
  case True
  with assms obtain b r1 where "WriteBlock E (index_block r) r = Inr (ih, b, r1)"
    "r' = r1\<lparr>index_block := b\<rparr>"
    by (auto simp: Finish_index_def split: sum.splits)
  with WriteBlock_frame [OF this(1)] show ?thesis by (simp add: same_but_sink_def)
qed

lemma Finish_footer_fields:
  "data_block (Finish_footer E m i r) = data_block r \<and>
   pending_index_entry (Finish_footer E m i r) = pending_index_entry r \<and>
   closed (Finish_footer E m i r) = closed r"
  by (simp add: Finish_footer_def Let_def split: prod.splits)

lemma Finish_steps:
  assumes "Finish E r = Inr (st, r')"
  shows "\<exists>r1. Flush E r = Inr r1 \<and> data_block r' = data_block r1 \<and>
     (pending_index_entry r' \<longrightarrow> pending_index_entry r1) \<and> closed r'"
proof -
  from assms obtain r1 where fl: "Flush E r = Inr r1"
    by (auto simp: Finish_def split: sum.splits)
  define r2 where "r2 = r1\<lparr>closed := True\<rparr>"
  obtain fh r3 where ff: "Finish_filter E r2 = (fh, r3)" by fastforce
  define r4 where "r4 = Finish_pending E r3"
  from assms fl ff obtain mh r5 where fm: "Finish_meta E fh r4 = Inr (mh, r5)"
    by (auto simp: Finish_def Let_def r2_def r4_def split: sum.splits if_splits)
  from assms fl ff fm obtain ih r6 where fi: "Finish_index E r5 = Inr (ih, r6)"
    by (auto simp: Finish_def Let_def r2_def r4_def split: sum.splits if_splits)
  from assms fl ff fm fi have r': "r' = Finish_footer E mh ih r6"
    by (auto simp: Finish_def Let_def r2_def r4_def split: sum.splits if_splits)
  have 3: "same_but_sink r2 r3" using Finish_filter_frame [of r2 E] ff by simp
  note 4 = Finish_pending_fields [of E r3]
  note 5 = Finish_meta_frame [OF fm]
  note 6 = Finish_index_fields [OF fi]
  note 7 = Finish_footer_fields [of E mh ih r6]
  from 3 4 5 6 7 have "data_block r' = data_block r1 \<and>
     (pending_index_entry r' \<longrightarrow> pending_index_entry r1) \<and> closed r'"
    by (simp add: r' r4_def [symmetric] same_but_sink_def r2_def)
  with fl show ?thesis by blast
qed


lemma Flush_inv: "Flush E r = Inr r' \<Longrightarrow> pending_inv r \<Longrightarrow> pending_inv r'"
  using Flush_cases [of E r r'] by (auto simp: BlockBuilder_empty_def pending_inv_def)

lemma Add_clears_pending:
  assumes "Add E key val r = Inr r'" "ok r"
  shows "\<not> pending_index_entry r' \<and>
    (\<exists>r2. \<not> pending_index_entry r2 \<and> r' = Add_append key val r2)"
proof -
  from Add_steps [OF assms] obtain r1 r2 where
    "Add_pending E key r1 = Inr r2" "r' = Add_append key val r2" by blast
  with Add_pending_cases [of E key r1 r2] show ?thesis
    by (auto simp: Add_append_fields)
qed

lemma Add_inv: "Add E key val r = Inr r' \<Longrightarrow> pending_inv r \<Longrightarrow> pending_inv r'"
proof (cases "ok r")
  case True
  assume "Add E key val r = Inr r'"
  from Add_clears_pending [OF this True] show ?thesis by (simp add: pending_inv_def)
next
  case False
  assume "Add E key val r = Inr r'" "pending_inv r"
  with False show ?thesis by (auto simp: Add_def split: if_splits)
qed

lemma call_inv: "call E c r = Inr r' \<Longrightarrow> pending_inv r \<Longrightarrow> pending_inv r'"
proof (cases c)
  case (CallAdd k v)
  assume "call E c r = Inr r'" "pending_inv r"
  with CallAdd show ?thesis using Add_inv by simp
next
  case CallFlush
  assume "call E c r = Inr r'" "pending_inv r"
  with CallFlush show ?thesis using Flush_inv by simp
next
  case CallFinish
  assume a: "call E c r = Inr r'" "pending_inv r"
  with CallFinish obtain st where "Finish E r = Inr (st, r')"
    by (auto split: sum.splits)
  from Finish_steps [OF this] a(2) show ?thesis
    using Flush_inv [of E r] by (auto simp: pending_inv_def)
next
  case CallAbandon
  assume "call E c r = Inr r'" "pending_inv r"
  with CallAbandon show ?thesis
    by (auto simp: Abandon_def pending_inv_def split: if_splits)
qed

lemma calls_inv: "calls E cs r = Inr r' \<Longrightarrow> pending_inv r \<Longrightarrow> pending_inv r'"
proof (induction cs arbitrary: r)
  case Nil
  then show ?case by simp
next
  case (Cons c cs)
  then obtain r1 where "call E c r = Inr r1" "calls E cs r1 = Inr r'"
    by (auto split: sum.splits)
  with Cons show ?case using call_inv by blast
qed

lemma new_inv: "pending_inv (TableBuilder_new opt f lvl)"
  by (simp add: pending_inv_def TableBuilder_new_def)


subsection \<open>The codec of a level\<close>

lemma WriteBlock_index_cases:
  "0 < n \<Longrightarrow> WriteBlock_index lvl n = (if lvl < 0 then 0 else if lvl < n then lvl else n)"
  by (simp add: WriteBlock_index_def)

text \<open>
  C1. The claim is that the index into \<open>compression_per_level\<close> is the level clamped to
  \<open>0..n-1\<close>. The source computes \<open>max 0 (min level_ n)\<close>: with one entry in the list
  and level 1 the index is 1, one past the end of the vector.
\<close>

theorem WriteBlock_type_level_past_end:
  "WriteBlock_index 1 (int (length [kSnappyCompression])) = 1 \<and>
   WriteBlock_type (example_options\<lparr>compression_per_level := [kSnappyCompression]\<rparr>) 1
     = Inl IndexOutOfRange"
  by (simp add: WriteBlock_index_def WriteBlock_type_def example_options_def)

subsection \<open>The framing of a raw block\<close>

text \<open>
  C4. \<open>WriteRawBlock\<close> records in the handle the offset before the write and the size of
  the contents without the trailer. It appends the contents and, once that append has
  succeeded, a trailer of five bytes: the compression tag, then the little-endian
  masked CRC32C of the contents followed by the tag. When both appends succeed the
  offset advances by the size of the contents plus five; otherwise the failure is latched
  and the offset stays.
\<close>

theorem WriteRawBlock_framing:
  "fst (WriteRawBlock block_contents type r)
     = \<lparr>handle_offset = offset r, handle_size = of_nat (length block_contents)\<rparr> \<and>
   length (compression_tag type
            # EncodeFixed32 (crc_Mask (crc_Value (block_contents @ [compression_tag type])))) = 5 \<and>
   file_ops (wfile (snd (WriteRawBlock block_contents type r)))
     = file_ops (wfile r) @
       (if next_result (wfile r) = OK
        then [FileAppend block_contents,
              FileAppend (compression_tag type
                # EncodeFixed32 (crc_Mask (crc_Value (block_contents @ [compression_tag type]))))]
        else [FileAppend block_contents]) \<and>
   (if next_result (wfile r) = OK \<and> second_result (wfile r) = OK
    then status (snd (WriteRawBlock block_contents type r)) = OK \<and>
         offset (snd (WriteRawBlock block_contents type r))
           = offset r + of_nat (length block_contents) + 5
    else status (snd (WriteRawBlock block_contents type r)) \<noteq> OK \<and>
         offset (snd (WriteRawBlock block_contents type r)) = offset r)"
  by (cases "file_results (wfile r)"; cases "tl (file_results (wfile r))")
     (auto simp: WriteRawBlock_def file_Append_def file_call_def next_result_def
        second_result_def crc_Extend_Value EncodeFixed32_length kBlockTrailerSize_def
        Let_def split: prod.splits list.splits)

theorem WriteRawBlock_framing_witness:
  "file_ops (wfile (snd (WriteRawBlock ''ab'' kSnappyCompression
       (TableBuilder_new example_options example_file 0))))
     = [FileAppend ''ab'',
        FileAppend (char_of (1::nat)
          # EncodeFixed32 (crc_Mask (crc_Value (''ab'' @ [char_of (1::nat)]))))] \<and>
   offset (snd (WriteRawBlock ''ab'' kSnappyCompression
       (TableBuilder_new example_options example_file 0))) = 7"
  using WriteRawBlock_framing [of "''ab''" kSnappyCompression
      "TableBuilder_new example_options example_file 0"]
  by (simp add: TableBuilder_new_def example_file_def next_result_def second_result_def)

subsection \<open>A latched failure\<close>

lemma Finish_filter_not_ok: "\<not> ok r \<Longrightarrow> Finish_filter E r = (BlockHandle_default, r)"
  by (simp add: Finish_filter_def split: option.splits)

lemma Finish_pending_not_ok: "\<not> ok r \<Longrightarrow> Finish_pending E r = r"
  by (simp add: Finish_pending_def)

lemma Finish_meta_not_ok: "\<not> ok r \<Longrightarrow> Finish_meta E h r = Inr (BlockHandle_default, r)"
  by (simp add: Finish_meta_def)

lemma Finish_index_not_ok: "\<not> ok r \<Longrightarrow> Finish_index E r = Inr (BlockHandle_default, r)"
  by (simp add: Finish_index_def)

lemma Finish_footer_not_ok: "\<not> ok r \<Longrightarrow> Finish_footer E m i r = r"
  by (simp add: Finish_footer_def)

lemma ok_closed_update: "ok (r\<lparr>closed := c\<rparr>) = ok r"
  by (simp add: ok_def)

lemma Flush_not_ok: "\<not> closed r \<Longrightarrow> \<not> ok r \<Longrightarrow> Flush E r = Inr r"
  by (simp add: Flush_def)

lemma Add_not_ok: "\<not> closed r \<Longrightarrow> \<not> ok r \<Longrightarrow> Add E key val r = Inr r"
  by (simp add: Add_def)

lemma Finish_not_ok:
  "\<not> closed r \<Longrightarrow> \<not> ok r \<Longrightarrow> Finish E r = Inr (status r, r\<lparr>closed := True\<rparr>)"
  by (simp add: Finish_def Flush_not_ok Finish_filter_not_ok Finish_pending_not_ok
      Finish_meta_not_ok Finish_index_not_ok Finish_footer_not_ok ok_closed_update)

lemma failing_run:
  "\<exists>r. calls example_env [CallAdd ''a'' ''1'', CallFlush]
         (TableBuilder_new example_options failing_file 0) = Inr r \<and>
       status r = IOError ''disk full'' \<and> \<not> closed r \<and>
       file_ops (wfile r) = [FileAppend ''a1'']"
  by (simp add: builder_eval failing_file_def)

text \<open>
  C9. On an open builder whose status is not ok, \<open>Add\<close> and \<open>Flush\<close> return at once and
  leave the whole state (counters, blocks, file) as it was; \<open>Finish\<close> only marks the
  builder closed, makes no call on the file, and returns the latched status.
\<close>

theorem latched_error_short_circuits:
  "\<not> closed r \<and> status r \<noteq> OK \<longrightarrow>
     Add E key val r = Inr r \<and>
     Flush E r = Inr r \<and>
     Finish E r = Inr (status r, r\<lparr>closed := True\<rparr>)"
  by (simp add: Add_not_ok Flush_not_ok Finish_not_ok ok_def)

theorem latched_error_short_circuits_witness:
  "\<exists>r. calls example_env [CallAdd ''a'' ''1'', CallFlush]
         (TableBuilder_new example_options failing_file 0) = Inr r \<and>
       status r = IOError ''disk full'' \<and>
       Add example_env ''b'' ''2'' r = Inr r \<and>
       Flush example_env r = Inr r \<and>
       Finish example_env r = Inr (IOError ''disk full'', r\<lparr>closed := True\<rparr>)"
proof -
  from failing_run obtain r where
    r: "calls example_env [CallAdd ''a'' ''1'', CallFlush]
         (TableBuilder_new example_options failing_file 0) = Inr r"
      "status r = IOError ''disk full''" "\<not> closed r"
    by blast
  then have "\<not> closed r \<and> status r \<noteq> OK" by simp
  with latched_error_short_circuits [of r example_env "''b''" "''2''"] r
  show ?thesis by auto
qed

subsection \<open>The comparison object of the sorted map\<close>

lemma BytewiseCompare_refl: "BytewiseCompare k k = 0"
  by (induction k) simp_all

lemma BytewiseCompare_flip: "BytewiseCompare a b = - BytewiseCompare b a"
  by (induction a b rule: BytewiseCompare.induct) simp_all

lemma BytewiseLessThan_total: "\<not> BytewiseLessThan a b \<Longrightarrow> BytewiseLessThan b a"
  using BytewiseCompare_flip [of a b] by (simp add: BytewiseLessThan_def)

lemma map_lower_bound_head:
  "map_lower_bound lt m k = n # rest \<Longrightarrow> \<not> lt (fst n) k"
  by (induction m) (auto split: if_splits)

lemma map_find_BytewiseLessThan: "map_find BytewiseLessThan m k = None"
proof (cases "map_lower_bound BytewiseLessThan m k")
  case Nil
  then show ?thesis by (simp add: map_find_def)
next
  case (Cons n rest)
  then have "BytewiseLessThan k (fst n)"
    by (blast dest: map_lower_bound_head BytewiseLessThan_total)
  with Cons show ?thesis by (simp add: map_find_def)
qed

lemma AddStats_never_fails:
  "AddStats stats name val = Inr (map_insert BytewiseLessThan stats (name, PutVarint64 val))"
  by (simp add: AddStats_def map_find_BytewiseLessThan)

lemma map_insert_twice:
  "map_insert BytewiseLessThan (map_insert BytewiseLessThan [] (name, a)) (name, b)
     = [(name, b), (name, a)]"
  by (simp add: map_insert_def map_absent_def BytewiseLessThan_def BytewiseCompare_refl)

lemma Finish_stats_keys:
  "\<exists>stats. Finish_stats E r = Inr stats \<and>
     map fst stats
       = [kDataSize, kIndexSize, kNumDataBlocks, kNumEntries, kRawKeySize, kRawValueSize]"
  by (simp add: Finish_stats_def AddStats_never_fails map_insert_def map_absent_def
      BytewiseLessThan_def kRawKeySize_def kRawValueSize_def kDataSize_def kIndexSize_def
      kNumEntries_def kNumDataBlocks_def)

lemma stat_names_distinct:
  "distinct [kDataSize, kIndexSize, kNumDataBlocks, kNumEntries, kRawKeySize, kRawValueSize]"
  by (simp add: kRawKeySize_def kRawValueSize_def kDataSize_def kIndexSize_def
      kNumEntries_def kNumDataBlocks_def)

text \<open>
  C10. \<open>BytewiseLessThan\<close> holds of a key and itself, so it is not a strict order. A
  lookup in a map ordered by it finds nothing, whatever the map holds; the assertion of
  \<open>AddStats\<close> therefore never fails, and adding a name twice leaves two entries under
  that name. The stats map built by \<open>Finish\<close> has the six names as its keys, and these
  are distinct.
\<close>

theorem BytewiseLessThan_not_strict:
  "BytewiseLessThan k k \<and>
   map_find BytewiseLessThan m k = None \<and>
   AddStats stats name val
     = Inr (map_insert BytewiseLessThan stats (name, PutVarint64 val)) \<and>
   (case AddStats [] name v1 of
      Inl f \<Rightarrow> False
    | Inr stats1 \<Rightarrow>
        AddStats stats1 name v2 = Inr [(name, PutVarint64 v2), (name, PutVarint64 v1)]) \<and>
   (\<exists>stats. Finish_stats E r = Inr stats \<and>
      map fst stats
        = [kDataSize, kIndexSize, kNumDataBlocks, kNumEntries, kRawKeySize, kRawValueSize] \<and>
      distinct (map fst stats))"
proof -
  have 1: "BytewiseLessThan k k"
    by (simp add: BytewiseLessThan_def BytewiseCompare_refl)
  have 4: "case AddStats [] name v1 of
      Inl f \<Rightarrow> False
    | Inr stats1 \<Rightarrow>
        AddStats stats1 name v2 = Inr [(name, PutVarint64 v2), (name, PutVarint64 v1)]"
    by (simp add: AddStats_never_fails map_insert_twice)
  obtain stats where 5: "Finish_stats E r = Inr stats"
    "map fst stats
        = [kDataSize, kIndexSize, kNumDataBlocks, kNumEntries, kRawKeySize, kRawValueSize]"
    using Finish_stats_keys [of E r] by (elim exE conjE)
  then have "distinct (map fst stats)"
    using stat_names_distinct by simp
  with 5 have "\<exists>stats. Finish_stats E r = Inr stats \<and>
      map fst stats
        = [kDataSize, kIndexSize, kNumDataBlocks, kNumEntries, kRawKeySize, kRawValueSize] \<and>
      distinct (map fst stats)"
    by (intro exI conjI)
  with 1 4 show ?thesis
    by (simp only: map_find_BytewiseLessThan AddStats_never_fails simp_thms)
qed

theorem BytewiseLessThan_not_strict_witness:
  "map_find BytewiseLessThan [(kNumEntries, PutVarint64 7)] kNumEntries = None \<and>
   AddStats [(kNumEntries, PutVarint64 7)] kNumEntries 8
     = Inr [(kNumEntries, PutVarint64 8), (kNumEntries, PutVarint64 7)]"
  using BytewiseLessThan_not_strict
    [where k = kNumEntries and m = "[(kNumEntries, PutVarint64 7)]"
       and stats = "[(kNumEntries, PutVarint64 7)]" and name = kNumEntries and val = 8]
  by (simp add: map_insert_def map_absent_def)

subsection \<open>The flush decision of Add\<close>

lemma Add_example:
  "\<exists>r'. Add example_env ''b'' ''2''
          (example_builder\<lparr>data_block := \<lparr>restart_interval = 16, entries = [(''a'', ''1234'')]\<rparr>,
                            last_key := ''a'', num_entries := 1\<rparr>) = Inr r' \<and>
        entries (data_block r') = [(''b'', ''2'')] \<and>
        file_ops (wfile r') \<noteq> []"
  by (simp add: builder_eval)

text \<open>
  C3, with the products as the source computes them. In a call of \<open>Add\<close> on an open
  builder whose status is ok, with \<open>cur\<close> and
  \<open>after\<close> the two size estimates of the data block, \<open>Flush\<close> runs before the pending
  index entry is emitted and the pair appended exactly when
  \<open>cur \<ge> block_size\<close>, or \<open>after > block_size\<close> and \<open>block_size_deviation > 0\<close> and
  \<open>cur * 100 > block_size * (100 - block_size_deviation)\<close>, where both products are
  taken in \<^verbatim>\<open>size_t\<close>, modulo \<open>2^64\<close>, and \<open>100 - block_size_deviation\<close> is converted
  to \<^verbatim>\<open>size_t\<close>, as the source does. Hence the data block afterwards holds only the new
  pair when the condition holds and the old entries followed by the new pair when not,
  and a non-empty data block is handed to the file during the call exactly when the
  condition holds. For a deviation between 0 and 100 and products below \<open>2^64\<close> the
  condition is the same inequality over the integers.
\<close>

theorem Add_flush_decision:
  assumes "\<not> closed r" and "ok r" and "Add E key val r = Inr r'"
  shows
    "(let cur = CurrentSizeEstimate E (data_block r);
          after = EstimateSizeAfterKV E (data_block r) key val;
          B = block_size (options r);
          d = block_size_deviation (options r);
          flush = (cur \<ge> B \<or> (after > B \<and> d > 0 \<and> cur * 100 > B * word_of_int (100 - d)))
      in (\<exists>r1 r2. (if flush then Flush E r else Inr r) = Inr r1 \<and>
                  Add_pending E key r1 = Inr r2 \<and> r' = Add_append key val r2) \<and>
         entries (data_block r')
           = (if flush then [] else entries (data_block r)) @ [(key, val)] \<and>
         (entries (data_block r) \<noteq> [] \<longrightarrow>
            (flush \<longleftrightarrow> file_ops (wfile r') \<noteq> file_ops (wfile r))) \<and>
         (0 \<le> d \<and> d \<le> 100 \<and> unat cur * 100 < 2 ^ 64 \<and> unat B * nat (100 - d) < 2 ^ 64 \<longrightarrow>
            (flush \<longleftrightarrow>
               unat cur \<ge> unat B \<or>
               (unat after > unat B \<and> d > 0 \<and>
                int (unat cur) * 100 > int (unat B) * (100 - d)))))"
proof -
  define cur where "cur = CurrentSizeEstimate E (data_block r)"
  define after where "after = EstimateSizeAfterKV E (data_block r) key val"
  define B where "B = block_size (options r)"
  define d where "d = block_size_deviation (options r)"
  define flush where
    "flush = (cur \<ge> B \<or> (after > B \<and> d > 0 \<and> cur * 100 > B * word_of_int (100 - d)))"
  from Add_steps [OF assms(3,2)] obtain r1 r2 where
    steps: "(if flush then Flush E r else Inr r) = Inr r1"
      "Add_pending E key r1 = Inr r2" "r' = Add_append key val r2"
    unfolding flush_def cur_def after_def B_def d_def by blast
  note ap = Add_pending_cases [OF steps(2)]
  have db: "entries (data_block r') = entries (data_block r1) @ [(key, val)]"
    and fo: "file_ops (wfile r') = file_ops (wfile r1)"
    using ap by (simp_all add: steps(3) Add_append_fields)
  have 2: "entries (data_block r')
           = (if flush then [] else entries (data_block r)) @ [(key, val)]"
  proof (cases flush)
    case True
    with steps(1) have "Flush E r = Inr r1" by simp
    from Flush_cases [OF this] assms(2) have "entries (data_block r1) = []" by auto
    with True db show ?thesis by simp
  next
    case False
    with steps(1) db show ?thesis by simp
  qed
  have 3: "entries (data_block r) \<noteq> [] \<longrightarrow>
            (flush \<longleftrightarrow> file_ops (wfile r') \<noteq> file_ops (wfile r))"
  proof (cases flush)
    case True
    with steps(1) have "Flush E r = Inr r1" by simp
    from Flush_cases [OF this] assms(2) True fo show ?thesis by auto
  next
    case False
    with steps(1) fo show ?thesis by simp
  qed
  have 4: "0 \<le> d \<and> d \<le> 100 \<and> unat cur * 100 < 2 ^ 64 \<and> unat B * nat (100 - d) < 2 ^ 64 \<longrightarrow>
            (flush \<longleftrightarrow>
               unat cur \<ge> unat B \<or>
               (unat after > unat B \<and> d > 0 \<and>
                int (unat cur) * 100 > int (unat B) * (100 - d)))"
    unfolding flush_def using flush_condition_in_range [of d cur B after] by blast
  from steps 2 3 4 show ?thesis
    unfolding Let_def flush_def cur_def after_def B_def d_def by blast
qed

theorem Add_flush_decision_witness:
  "\<exists>r'. Add example_env ''b'' ''2''
          (example_builder\<lparr>data_block := \<lparr>restart_interval = 16, entries = [(''a'', ''1234'')]\<rparr>,
                            last_key := ''a'', num_entries := 1\<rparr>) = Inr r' \<and>
        entries (data_block r') = [(''b'', ''2'')] \<and>
        file_ops (wfile r') \<noteq> [] \<and>
        (\<exists>r1 r2. Flush example_env
             (example_builder\<lparr>data_block := \<lparr>restart_interval = 16, entries = [(''a'', ''1234'')]\<rparr>,
                            last_key := ''a'', num_entries := 1\<rparr>) = Inr r1 \<and>
           Add_pending example_env ''b'' r1 = Inr r2 \<and> r' = Add_append ''b'' ''2'' r2)"
proof -
  let ?r = "example_builder\<lparr>data_block := \<lparr>restart_interval = 16, entries = [(''a'', ''1234'')]\<rparr>,
                            last_key := ''a'', num_entries := 1\<rparr>"
  from Add_example obtain r' where
    r': "Add example_env ''b'' ''2'' ?r = Inr r'"
      "entries (data_block r') = [(''b'', ''2'')]" "file_ops (wfile r') \<noteq> []"
    by blast
  have h: "\<not> closed ?r" "ok ?r"
    by (simp_all add: example_builder_def TableBuilder_new_def ok_def)
  from Add_flush_decision [OF h r'(1)] r' show ?thesis
    by (simp add: Let_def example_env_def example_builder_def TableBuilder_new_def
        example_options_def)
qed

text \<open>
  C3, as stated over the integers, fails for a deviation above 100: with
  \<open>block_size = 4\<close>, \<open>block_size_deviation = 150\<close>, \<open>cur = 3\<close> and \<open>after = 8\<close> the
  condition of the claim holds, since \<open>8 > 4\<close>, \<open>150 > 0\<close> and \<open>300 > -200\<close>, but \<open>Add\<close>
  does not flush: the pair is appended to the old entries and nothing reaches the
  file. In \<^verbatim>\<open>size_t\<close> the right-hand product is \<open>2^64 - 200\<close>.
\<close>

theorem Add_flush_decision_counterexample:
  "calls example_env [CallAdd ''a'' ''12''] (TableBuilder_new deviation_options example_file 0)
     = Inr deviation_builder \<and>
   \<not> closed deviation_builder \<and> ok deviation_builder \<and>
   uint (CurrentSizeEstimate example_env (data_block deviation_builder)) = 3 \<and>
   uint (EstimateSizeAfterKV example_env (data_block deviation_builder) ''b'' ''2345'') = 8 \<and>
   uint (block_size (options deviation_builder)) = 4 \<and>
   block_size_deviation (options deviation_builder) = 150 \<and>
   \<not> ((3::int) \<ge> 4) \<and>
   ((8::int) > 4 \<and> (150::int) > 0 \<and> (3::int) * 100 > 4 * (100 - 150)) \<and>
   Add example_env ''b'' ''2345'' deviation_builder
     = Inr (Add_append ''b'' ''2345'' deviation_builder) \<and>
   entries (data_block (Add_append ''b'' ''2345'' deviation_builder))
     = [(''a'', ''12''), (''b'', ''2345'')] \<and>
   file_ops (wfile (Add_append ''b'' ''2345'' deviation_builder)) = []"
  by (simp add: builder_eval deviation_builder_def deviation_options_def)

subsection \<open>The invariant of the pending index entry\<close>

lemma pending_example:
  "\<exists>r0 r1 r3. calls example_env [CallAdd ''a'' ''1234''] example_builder = Inr r0 \<and>
     calls example_env [CallAdd ''a'' ''1234'', CallFlush]
       (TableBuilder_new example_options example_file 0) = Inr r1 \<and>
     Flush example_env r0 = Inr r1 \<and>
     \<not> pending_index_entry r0 \<and> pending_index_entry r1 \<and> ok r1 \<and>
     Add example_env ''b'' ''2'' r1 = Inr r3"
  by (simp add: builder_eval PutVarint64_def PutVarint_small BlockHandle_EncodeTo_def)

text \<open>
  C5. In every state that a sequence of \<open>Add\<close>, \<open>Flush\<close>, \<open>Finish\<close> and \<open>Abandon\<close> calls
  reaches from the constructor without breaking the contract, the pending flag is set
  only if the data block is empty. When \<open>Flush\<close> sets the flag, the data block it
  started from was not empty, its contents and trailer have been appended to the file,
  and the block has been reset. A call of \<open>Add\<close> that gets past the status guard appends
  to the data block in a state where the flag is clear, and returns with the flag clear.
\<close>

theorem pending_index_entry_invariant:
  "(calls E cs (TableBuilder_new opt f lvl) = Inr r \<longrightarrow>
      (pending_index_entry r \<longrightarrow> BlockBuilder_empty (data_block r))) \<and>
   (Flush E r0 = Inr r1 \<and> \<not> pending_index_entry r0 \<and> pending_index_entry r1 \<longrightarrow>
      \<not> BlockBuilder_empty (data_block r0) \<and> BlockBuilder_empty (data_block r1) \<and>
      (\<exists>type tr. WriteBlock_type (options r0) (level r0) = Inr type \<and>
         file_ops (wfile r1)
           = file_ops (wfile r0)
             @ [FileAppend (fst (WriteBlock_contents E type
                                   (BlockBuilder_Finish E (data_block r0)))),
                FileAppend tr, FileFlush])) \<and>
   (Add E key val r2 = Inr r3 \<and> ok r2 \<longrightarrow>
      \<not> pending_index_entry r3 \<and>
      (\<exists>r'. \<not> pending_index_entry r' \<and> r3 = Add_append key val r'))"
  using calls_inv [of E cs "TableBuilder_new opt f lvl" r] new_inv [of opt f lvl]
    Flush_establishes_pending [of E r0 r1] Add_clears_pending [of E key val r2 r3]
  by (simp add: pending_inv_def BlockBuilder_empty_def)

theorem pending_index_entry_invariant_witness:
  "\<exists>r0 r1 r3. calls example_env [CallAdd ''a'' ''1234'', CallFlush]
       (TableBuilder_new example_options example_file 0) = Inr r1 \<and>
     Flush example_env r0 = Inr r1 \<and>
     pending_index_entry r1 \<and> BlockBuilder_empty (data_block r1) \<and>
     \<not> BlockBuilder_empty (data_block r0) \<and>
     Add example_env ''b'' ''2'' r1 = Inr r3 \<and> \<not> pending_index_entry r3"
proof -
  from pending_example obtain r0 r1 r3 where
    h: "calls example_env [CallAdd ''a'' ''1234'', CallFlush]
          (TableBuilder_new example_options example_file 0) = Inr r1"
       "Flush example_env r0 = Inr r1" "\<not> pending_index_entry r0" "pending_index_entry r1"
       "ok r1" "Add example_env ''b'' ''2'' r1 = Inr r3"
    by blast
  from pending_index_entry_invariant
    [of example_env "[CallAdd ''a'' ''1234'', CallFlush]" example_options example_file 0 r1
        r0 r1 "''b''" "''2''" r1 r3] h
  show ?thesis by blast
qed

subsection \<open>Index keys between data blocks\<close>

lemma added_keys_append: "added_keys (xs @ ys) = added_keys xs @ added_keys ys"
  by (induction xs rule: added_keys.induct) simp_all

lemma increasing_tail: "increasing E (k # ks) \<Longrightarrow> increasing E ks"
  by (cases ks) simp_all

lemma increasing_append_right: "increasing E (xs @ ys) \<Longrightarrow> increasing E ys"
  by (induction xs) (auto dest: increasing_tail)

lemma increasing_append_left: "increasing E (xs @ ys) \<Longrightarrow> increasing E xs"
proof (induction xs rule: increasing.induct)
  case (3 E k k' ks)
  then show ?case by simp
qed simp_all

lemma increasing_join:
  "increasing E (xs @ y # ys) \<Longrightarrow> xs \<noteq> [] \<Longrightarrow> Compare E y (last xs) > 0"
proof (induction xs rule: increasing.induct)
  case (3 E k k' ks)
  then show ?case by simp
qed simp_all

lemma increasing_head_less:
  assumes "comparator_contract E" "increasing E (k # ks)" "y \<in> set ks"
  shows "Compare E k y < 0"
  using assms(2,3)
proof (induction ks arbitrary: k)
  case Nil
  then show ?case by simp
next
  case (Cons k' ks)
  from Cons.prems have 1: "Compare E k k' < 0" "increasing E (k' # ks)"
    using assms(1) by (simp_all add: comparator_contract_def)
  show ?case
  proof (cases "y = k'")
    case True
    with 1 show ?thesis by simp
  next
    case False
    with Cons.prems have "y \<in> set ks" by simp
    from Cons.IH [OF 1(2) this] have "Compare E k' y < 0" .
    with 1(1) assms(1) show ?thesis
      unfolding comparator_contract_def by (metis less_imp_le)
  qed
qed

lemma increasing_le_last:
  assumes "comparator_contract E" "increasing E ks" "x \<in> set ks"
  shows "Compare E x (last ks) \<le> 0"
proof (cases "x = last ks")
  case True
  with assms(1) show ?thesis by (simp add: comparator_contract_def)
next
  case False
  from assms(3) obtain xs ys where ks: "ks = xs @ x # ys" by (meson split_list)
  with False have "ys \<noteq> []" by auto
  then have l: "last ks = last ys" "last ys \<in> set ys" using ks by auto
  from assms(2) ks have "increasing E (x # ys)" using increasing_append_right by blast
  from increasing_head_less [OF assms(1) this l(2)] l(1) show ?thesis by simp
qed

lemma Flush_ok_pending:
  assumes "Flush E r = Inr r'" "ok r" "entries (data_block r) \<noteq> []" "ok r'"
  shows "pending_index_entry r'"
proof -
  from Flush_cases [OF assms(1)] assms(2,3) have nc: "\<not> closed r" "\<not> pending_index_entry r"
    by auto
  with assms obtain h b1 r1 where
    wb: "WriteBlock E (data_block r) r = Inr (h, b1, r1)"
    by (auto simp: Flush_def BlockBuilder_empty_def split: sum.splits)
  with assms nc have r':
      "r' = Flush_counters (Flush_filter (Flush_file
                    (r1\<lparr>data_block := b1, pending_handle := h\<rparr>)))"
    by (auto simp: Flush_def BlockBuilder_empty_def)
  from assms(4) have "ok (Flush_file (r1\<lparr>data_block := b1, pending_handle := h\<rparr>))"
    by (simp add: r' ok_def Flush_counters_fields Flush_filter_fields)
  then have "ok (r1\<lparr>data_block := b1, pending_handle := h\<rparr>)"
    using Flush_file_fields by blast
  then show ?thesis
    by (simp add: r' Flush_counters_fields Flush_filter_fields Flush_file_fields)
qed

lemma Flush_key_inv:
  assumes "Flush E r = Inr r'" "key_inv ks r"
  shows "key_inv ks r'"
proof (cases "r' = r")
  case True
  with assms show ?thesis by simp
next
  case False
  with Flush_cases [OF assms(1)] have
    f: "\<not> closed r" "ok r" "entries (data_block r) \<noteq> []" "last_key r' = last_key r"
    by auto
  from f assms(2) have ks: "ks \<noteq> []" "last_key r = last ks"
    by (auto simp: key_inv_def)
  show ?thesis
    unfolding key_inv_def
  proof (intro impI)
    assume "\<not> closed r' \<and> ok r'"
    then have "pending_index_entry r'" 
      using Flush_ok_pending [OF assms(1) f(2,3)] by simp
    with ks f(4) show "((ks \<noteq> []) = (pending_index_entry r' \<or> entries (data_block r') \<noteq> [])) \<and>
        (ks \<noteq> [] \<longrightarrow> last_key r' = last ks)" by simp
  qed
qed

lemma Add_key_inv:
  assumes "Add E key val r = Inr r'" "key_inv ks r"
  shows "key_inv (ks @ [key]) r'"
proof (cases "ok r")
  case False
  with assms(1) have "r' = r" by (auto simp: Add_def split: if_splits)
  with False show ?thesis by (simp add: key_inv_def)
next
  case True
  from Add_steps [OF assms(1) True] obtain r1 r2 where
    "Add_pending E key r1 = Inr r2" "r' = Add_append key val r2" by blast
  then show ?thesis
    by (simp add: key_inv_def Add_append_fields)
qed

lemma call_key_inv:
  assumes "call E c r = Inr r'" "key_inv ks r"
  shows "key_inv (ks @ added_keys [c]) r'"
proof (cases c)
  case (CallAdd k v)
  with assms show ?thesis using Add_key_inv by simp
next
  case CallFlush
  with assms show ?thesis using Flush_key_inv by simp
next
  case CallFinish
  with assms obtain st where "Finish E r = Inr (st, r')"
    by (auto split: sum.splits)
  from Finish_steps [OF this] show ?thesis by (auto simp: key_inv_def)
next
  case CallAbandon
  with assms show ?thesis
    by (auto simp: Abandon_def key_inv_def split: if_splits)
qed

lemma calls_key_inv:
  "calls E cs r = Inr r' \<Longrightarrow> key_inv ks r \<Longrightarrow> key_inv (ks @ added_keys cs) r'"
proof (induction cs arbitrary: r ks)
  case Nil
  then show ?case by simp
next
  case (Cons c cs)
  then obtain r1 where 1: "call E c r = Inr r1" "calls E cs r1 = Inr r'"
    by (auto split: sum.splits)
  from call_key_inv [OF 1(1) Cons.prems(2)] have "key_inv (ks @ added_keys [c]) r1" .
  from Cons.IH [OF 1(2) this] show ?case
    using added_keys_append [of "[c]" cs] by simp
qed

lemma new_key_inv: "key_inv [] (TableBuilder_new opt f lvl)"
  by (simp add: key_inv_def TableBuilder_new_def BlockBuilder_new_def)

lemma reachable_key_inv:
  "calls E cs (TableBuilder_new opt f lvl) = Inr r \<Longrightarrow> key_inv (added_keys cs) r"
  using calls_key_inv [OF _ new_key_inv] by fastforce

text \<open>The index entry that Add emits.\<close>

lemma Add_index_entry:
  assumes "Add E key val r = Inr r'" "entries (index_block r') \<noteq> entries (index_block r)"
    "key_inv ks r"
  shows "ks \<noteq> [] \<and> ok r \<and>
    (\<exists>h. entries (index_block r')
       = entries (index_block r) @ [(FindShortestSeparator E (last ks) key, h)]) \<and>
    entries (data_block r') = [(key, val)]"
proof -
  have okr: "ok r"
  proof (rule ccontr)
    assume "\<not> ok r"
    with assms(1) have "r' = r" by (auto simp: Add_def split: if_splits)
    with assms(2) show False by simp
  qed
  from Add_steps [OF assms(1) okr] obtain r1 r2 where
    nc: "\<not> closed r" and
    fl: "Flush E r = Inr r1 \<or> r1 = r" and
    ap: "Add_pending E key r1 = Inr r2" and r': "r' = Add_append key val r2"
    by (auto split: if_splits)
  have ib1: "index_block r1 = index_block r" and lk1: "last_key r1 = last_key r"
    using fl Flush_cases [of E r r1] by auto
  have ki1: "key_inv ks r1"
    using fl Flush_key_inv [of E r r1 ks] assms(3) by auto
  note apc = Add_pending_cases [OF ap]
  have p1: "pending_index_entry r1"
  proof (rule ccontr)
    assume "\<not> pending_index_entry r1"
    with apc have "r2 = r1" by simp
    with assms(2) ib1 show False by (simp add: r' Add_append_fields)
  qed
  have ks: "ks \<noteq> []"
  proof (cases "r1 = r")
    case True
    with p1 assms(3) nc okr show ?thesis by (auto simp: key_inv_def)
  next
    case False
    with fl Flush_cases [of E r r1] assms(3) nc okr show ?thesis
      by (auto simp: key_inv_def)
  qed
  with assms(3) nc okr have "last_key r = last ks" by (simp add: key_inv_def)
  with apc p1 ib1 lk1 ks okr show ?thesis
    by (auto simp: r' Add_append_fields)
qed

lemma Finish_pending_index_block:
  "index_block (Finish_pending E r)
     = (if ok r \<and> pending_index_entry r
        then BlockBuilder_Add (FindShortSuccessor E (last_key r))
               (BlockHandle_EncodeTo (pending_handle r)) (index_block r)
        else index_block r)"
  by (simp add: Finish_pending_def Let_def)

lemma ok_Finish_pending: "ok (Finish_pending E r) = ok r"
  by (simp add: ok_def Finish_pending_fields)

lemma Finish_filter_ok: "ok (snd (Finish_filter E r)) \<Longrightarrow> ok r"
  by (auto simp: Finish_filter_def split: option.splits if_splits)

lemma Finish_meta_ok:
  assumes "Finish_meta E fh r = Inr (mh, r')" "ok r'"
  shows "ok r"
  using assms by (cases "ok r") (auto simp: Finish_meta_def)

lemma Finish_index_ok:
  assumes "Finish_index E r = Inr (ih, r')" "ok r'"
  shows "ok r \<and>
    (\<exists>type tr. WriteBlock_type (options r) (level r) = Inr type \<and>
       file_ops (wfile r')
         = file_ops (wfile r)
           @ [FileAppend (fst (WriteBlock_contents E type (BlockBuilder_Finish E (index_block r)))),
              FileAppend tr])"
proof -
  from assms have okr: "ok r" by (cases "ok r") (auto simp: Finish_index_def)
  with assms obtain b r1 where wb: "WriteBlock E (index_block r) r = Inr (ih, b, r1)"
    and r': "r' = r1\<lparr>index_block := b\<rparr>"
    by (auto simp: Finish_index_def split: sum.splits)
  from assms(2) r' have "ok r1" by (simp add: ok_def)
  from WriteBlock_ok_contents [OF wb this] okr show ?thesis by (simp add: r')
qed

lemma Finish_footer_ok:
  assumes "ok (Finish_footer E m i r)"
  shows "ok r \<and> file_ops (wfile (Finish_footer E m i r))
     = file_ops (wfile r) @ [FileAppend (Footer_EncodeTo E m i)]"
proof -
  from assms have okr: "ok r" by (cases "ok r") (auto simp: Finish_footer_def)
  then show ?thesis
    by (auto simp: Finish_footer_def Let_def file_Append_def file_call_def
        split: prod.splits list.splits)
qed

text \<open>A call of Finish that returns ok has written the index block with its last entry.\<close>

lemma Finish_ok_index:
  assumes "Finish E r = Inr (OK, rf)"
  shows "\<exists>r1 type tr ops footer. Flush E r = Inr r1 \<and> ok r1 \<and> \<not> closed r1 \<and>
      WriteBlock_type (options r1) (level r1) = Inr type \<and>
      file_ops (wfile rf)
        = ops @ [FileAppend (fst (WriteBlock_contents E type
                   (BlockBuilder_Finish E
                      (if pending_index_entry r1
                       then BlockBuilder_Add (FindShortSuccessor E (last_key r1))
                              (BlockHandle_EncodeTo (pending_handle r1)) (index_block r1)
                       else index_block r1)))),
                 FileAppend tr, FileAppend footer]"
proof -
  from assms obtain r1 where fl: "Flush E r = Inr r1" and nc: "\<not> closed r1"
    by (auto simp: Finish_def split: sum.splits if_splits)
  define r2 where "r2 = r1\<lparr>closed := True\<rparr>"
  obtain fh r3 where ff: "Finish_filter E r2 = (fh, r3)" by fastforce
  define r4 where "r4 = Finish_pending E r3"
  from assms fl ff obtain mh r5 where fm: "Finish_meta E fh r4 = Inr (mh, r5)"
    by (auto simp: Finish_def Let_def r2_def r4_def split: sum.splits if_splits)
  from assms fl ff fm obtain ih r6 where fi: "Finish_index E r5 = Inr (ih, r6)"
    by (auto simp: Finish_def Let_def r2_def r4_def split: sum.splits if_splits)
  from assms fl ff fm fi have rf: "rf = Finish_footer E mh ih r6" and st: "status rf = OK"
    by (auto simp: Finish_def Let_def r2_def r4_def split: sum.splits if_splits)
  from st have "ok (Finish_footer E mh ih r6)" by (simp add: rf ok_def)
  note 7 = Finish_footer_ok [OF this]
  then have ok6: "ok r6" by simp
  note 6 = Finish_index_ok [OF fi ok6]
  then have ok5: "ok r5" by simp
  from Finish_meta_ok [OF fm ok5] have ok4: "ok r4" .
  then have ok3: "ok r3" by (simp add: r4_def ok_Finish_pending)
  with Finish_filter_ok [of E r2] ff have ok2: "ok r2" by simp
  then have ok1: "ok r1" by (simp add: r2_def ok_def)
  have 3: "same_but_sink r2 r3" using Finish_filter_frame [of r2 E] ff by simp
  note 5 = Finish_meta_frame [OF fm]
  have ib: "index_block r5
     = (if pending_index_entry r1
        then BlockBuilder_Add (FindShortSuccessor E (last_key r1))
               (BlockHandle_EncodeTo (pending_handle r1)) (index_block r1)
        else index_block r1)"
    using 3 5 ok3
    by (simp add: same_but_sink_def r4_def Finish_pending_index_block r2_def)
  have ol: "options r5 = options r1" "level r5 = level r1"
    using 3 5 Finish_pending_fields [of E r3]
    by (simp_all add: same_but_sink_def r4_def [symmetric] r2_def)
  from 6 obtain type tr where
    "WriteBlock_type (options r5) (level r5) = Inr type"
    "file_ops (wfile r6)
         = file_ops (wfile r5)
           @ [FileAppend (fst (WriteBlock_contents E type (BlockBuilder_Finish E (index_block r5)))),
              FileAppend tr]"
    by blast
  with 7 ib ol have "WriteBlock_type (options r1) (level r1) = Inr type \<and>
      file_ops (wfile rf)
        = file_ops (wfile r5) @ [FileAppend (fst (WriteBlock_contents E type
                   (BlockBuilder_Finish E
                      (if pending_index_entry r1
                       then BlockBuilder_Add (FindShortSuccessor E (last_key r1))
                              (BlockHandle_EncodeTo (pending_handle r1)) (index_block r1)
                       else index_block r1)))),
                 FileAppend tr, FileAppend (Footer_EncodeTo E mh ih)]"
    by (simp add: rf)
  with fl ok1 nc show ?thesis by blast
qed

lemma BytewiseCompare_eq: "BytewiseCompare a b = 0 \<Longrightarrow> a = b"
  by (induction a b rule: BytewiseCompare.induct) (auto split: if_splits)

lemma BytewiseCompare_Cons_le:
  "(BytewiseCompare (x # xs) (y # ys) \<le> 0)
     = ((of_char x :: nat) < of_char y \<or> (x = y \<and> BytewiseCompare xs ys \<le> 0))"
  by (auto simp: not_less dest: le_antisym)

lemma BytewiseCompare_Nil_le: "BytewiseCompare [] b \<le> 0"
  by (cases b) simp_all

lemma BytewiseCompare_le_Nil: "(BytewiseCompare a [] \<le> 0) = (a = [])"
  by (cases a) simp_all

lemma BytewiseCompare_le_trans:
  "BytewiseCompare a b \<le> 0 \<Longrightarrow> BytewiseCompare b c \<le> 0 \<Longrightarrow> BytewiseCompare a c \<le> 0"
proof (induction a arbitrary: b c)
  case Nil
  then show ?case by (simp add: BytewiseCompare_Nil_le)
next
  case (Cons x xs)
  from Cons.prems(1) obtain y ys where b: "b = y # ys"
    by (cases b) simp_all
  from Cons.prems(2) b obtain z zs where c: "c = z # zs"
    by (cases c) simp_all
  from Cons.prems have 1: "(of_char x :: nat) < of_char y \<or> (x = y \<and> BytewiseCompare xs ys \<le> 0)"
    and 2: "(of_char y :: nat) < of_char z \<or> (y = z \<and> BytewiseCompare ys zs \<le> 0)"
    unfolding b c BytewiseCompare_Cons_le by simp_all
  show ?case
  proof (cases "x = y \<and> y = z")
    case True
    with 1 2 have "BytewiseCompare xs ys \<le> 0" "BytewiseCompare ys zs \<le> 0" by simp_all
    from Cons.IH [OF this] True show ?thesis
      unfolding c BytewiseCompare_Cons_le by simp
  next
    case False
    with 1 2 have "(of_char x :: nat) < of_char z" by auto
    then show ?thesis unfolding c BytewiseCompare_Cons_le by simp
  qed
qed

lemma BytewiseCompare_eq_iff: "(BytewiseCompare a b = 0) = (a = b)"
  using BytewiseCompare_eq [of a b] BytewiseCompare_refl [of a] by auto

lemma BytewiseCompare_less_le:
  "(BytewiseCompare a b < 0) = (BytewiseCompare a b \<le> 0 \<and> a \<noteq> b)"
  by (simp add: less_le BytewiseCompare_eq_iff)

lemma BytewiseCompare_antisym:
  "BytewiseCompare a b \<le> 0 \<Longrightarrow> BytewiseCompare b a \<le> 0 \<Longrightarrow> a = b"
  using BytewiseCompare_flip [of a b] BytewiseCompare_eq [of a b] by simp

lemma BytewiseCompare_le_less_trans:
  assumes "BytewiseCompare a b \<le> 0" "BytewiseCompare b c < 0"
  shows "BytewiseCompare a c < 0"
proof -
  from assms have le: "BytewiseCompare a c \<le> 0"
    using BytewiseCompare_le_trans [of a b c] by simp
  have "a \<noteq> c"
  proof
    assume "a = c"
    with assms have "b = c" using BytewiseCompare_antisym [of b c] by simp
    with assms(2) show False by (simp add: BytewiseCompare_refl)
  qed
  with le show ?thesis by (simp add: BytewiseCompare_less_le)
qed

lemma BytewiseCompare_less_le_trans:
  assumes "BytewiseCompare a b < 0" "BytewiseCompare b c \<le> 0"
  shows "BytewiseCompare a c < 0"
proof -
  from assms have le: "BytewiseCompare a c \<le> 0"
    using BytewiseCompare_le_trans [of a b c] by simp
  have "a \<noteq> c"
  proof
    assume "a = c"
    with assms have "a = b" using BytewiseCompare_antisym [of a b] by simp
    with assms(1) show False by (simp add: BytewiseCompare_refl)
  qed
  with le show ?thesis by (simp add: BytewiseCompare_less_le)
qed

lemma BytewiseCompare_less_flip: "(BytewiseCompare a b < 0) = (BytewiseCompare b a > 0)"
  using BytewiseCompare_flip [of a b] by simp

lemma example_env_contract: "comparator_contract example_env"
  unfolding comparator_contract_def
proof (intro conjI allI impI)
  fix a b c :: bytes
  show "Compare example_env a a = 0"
    by (simp add: example_env_def BytewiseCompare_refl)
  show "(Compare example_env a b < 0) = (0 < Compare example_env b a)"
    using BytewiseCompare_less_flip [of a b] by (simp add: example_env_def)
  show "Compare example_env a (FindShortSuccessor example_env a) \<le> 0"
    by (simp add: example_env_def BytewiseCompare_refl)
  {
    assume "Compare example_env a b \<le> 0 \<and> Compare example_env b c \<le> 0"
    then show "Compare example_env a c \<le> 0"
      using BytewiseCompare_le_trans [of a b c] by (simp add: example_env_def)
  }
  {
    assume "Compare example_env a b \<le> 0 \<and> Compare example_env b c < 0"
    then show "Compare example_env a c < 0"
      using BytewiseCompare_le_less_trans [of a b c] by (simp add: example_env_def)
  }
  {
    assume "Compare example_env a b < 0 \<and> Compare example_env b c \<le> 0"
    then show "Compare example_env a c < 0"
      using BytewiseCompare_less_le_trans [of a b c] by (simp add: example_env_def)
  }
  {
    assume h: "Compare example_env a b < 0"
    then show "Compare example_env a (FindShortestSeparator example_env a b) \<le> 0"
      by (simp add: example_env_def BytewiseCompare_refl)
    from h show "Compare example_env (FindShortestSeparator example_env a b) b < 0"
      by (simp add: example_env_def)
  }
qed

lemma contract_le_trans:
  "comparator_contract E \<Longrightarrow> Compare E a b \<le> 0 \<Longrightarrow> Compare E b c \<le> 0 \<Longrightarrow> Compare E a c \<le> 0"
  unfolding comparator_contract_def by blast

lemma contract_less_trans:
  "comparator_contract E \<Longrightarrow> Compare E a b < 0 \<Longrightarrow> Compare E b c < 0 \<Longrightarrow> Compare E a c < 0"
  unfolding comparator_contract_def by (meson less_imp_le)

lemma contract_flip:
  "comparator_contract E \<Longrightarrow> Compare E b a > 0 \<Longrightarrow> Compare E a b < 0"
  unfolding comparator_contract_def by blast

lemma contract_separator:
  "comparator_contract E \<Longrightarrow> Compare E a b < 0 \<Longrightarrow>
     Compare E a (FindShortestSeparator E a b) \<le> 0 \<and>
     Compare E (FindShortestSeparator E a b) b < 0"
  unfolding comparator_contract_def by blast

lemma contract_successor:
  "comparator_contract E \<Longrightarrow> Compare E a (FindShortSuccessor E a) \<le> 0"
  unfolding comparator_contract_def by blast

lemma separator_entry:
  assumes c: "comparator_contract E"
    and inc: "increasing E (added_keys (pre @ CallAdd key val # post))"
    and run: "calls E pre (TableBuilder_new opt f lvl) = Inr r"
    and add: "Add E key val r = Inr r'"
    and new: "entries (index_block r') \<noteq> entries (index_block r)"
  shows "added_keys pre \<noteq> [] \<and>
       (\<exists>h. entries (index_block r')
          = entries (index_block r)
            @ [(FindShortestSeparator E (last (added_keys pre)) key, h)]) \<and>
       entries (data_block r') = [(key, val)] \<and>
       Compare E (last (added_keys pre))
         (FindShortestSeparator E (last (added_keys pre)) key) \<le> 0 \<and>
       (\<forall>x\<in>set (added_keys pre).
          Compare E x (FindShortestSeparator E (last (added_keys pre)) key) \<le> 0) \<and>
       Compare E (FindShortestSeparator E (last (added_keys pre)) key) key < 0 \<and>
       (\<forall>y\<in>set (added_keys post).
          Compare E (FindShortestSeparator E (last (added_keys pre)) key) y < 0)"
proof -
  define ks where "ks = added_keys pre"
  define K where "K = FindShortestSeparator E (last ks) key"
  from inc have inc': "increasing E (ks @ key # added_keys post)"
    by (simp add: added_keys_append ks_def)
  have ki: "key_inv ks r" unfolding ks_def by (rule reachable_key_inv [OF run])
  note e = Add_index_entry [OF add new ki]
  from e have ne: "ks \<noteq> []" by simp
  have lt: "Compare E (last ks) key < 0"
    by (rule contract_flip [OF c increasing_join [OF inc' ne]])
  note sep = contract_separator [OF c lt]
  have before: "\<forall>x\<in>set ks. Compare E x K \<le> 0"
  proof
    fix x assume "x \<in> set ks"
    from increasing_le_last [OF c increasing_append_left [OF inc'] this]
    have "Compare E x (last ks) \<le> 0" .
    from contract_le_trans [OF c this] sep show "Compare E x K \<le> 0"
      by (simp add: K_def)
  qed
  have after: "\<forall>y\<in>set (added_keys post). Compare E K y < 0"
  proof
    fix y assume "y \<in> set (added_keys post)"
    from increasing_head_less [OF c increasing_append_right [OF inc'] this]
    have "Compare E key y < 0" .
    from contract_less_trans [OF c _ this] sep show "Compare E K y < 0"
      by (simp add: K_def)
  qed
  from e sep before after show ?thesis
    by (simp add: K_def [symmetric] ks_def [symmetric])
qed

lemma successor_entry:
  assumes c: "comparator_contract E"
    and inc: "increasing E (added_keys cs)"
    and ne: "added_keys cs \<noteq> []"
    and run: "calls E cs (TableBuilder_new opt f lvl) = Inr s"
    and fin: "Finish E s = Inr (OK, sf)"
  shows "(\<exists>s1 type tr ops footer. Flush E s = Inr s1 \<and>
          WriteBlock_type (options s1) (level s1) = Inr type \<and>
          file_ops (wfile sf)
            = ops @ [FileAppend (fst (WriteBlock_contents E type
                       (BlockBuilder_Finish E
                          (BlockBuilder_Add (FindShortSuccessor E (last (added_keys cs)))
                             (BlockHandle_EncodeTo (pending_handle s1)) (index_block s1))))),
                     FileAppend tr, FileAppend footer]) \<and>
       (\<forall>x\<in>set (added_keys cs).
          Compare E x (FindShortSuccessor E (last (added_keys cs))) \<le> 0)"
proof
  define ks where "ks = added_keys cs"
  have ki: "key_inv ks s" unfolding ks_def by (rule reachable_key_inv [OF run])
  from Finish_ok_index [OF fin] obtain s1 type tr ops footer where
    f: "Flush E s = Inr s1" "ok s1" "\<not> closed s1"
      "WriteBlock_type (options s1) (level s1) = Inr type"
      "file_ops (wfile sf)
        = ops @ [FileAppend (fst (WriteBlock_contents E type
                   (BlockBuilder_Finish E
                      (if pending_index_entry s1
                       then BlockBuilder_Add (FindShortSuccessor E (last_key s1))
                              (BlockHandle_EncodeTo (pending_handle s1)) (index_block s1)
                       else index_block s1)))),
                 FileAppend tr, FileAppend footer]"
    by blast
  from Flush_key_inv [OF f(1) ki] have ki1: "key_inv ks s1" .
  from Flush_cases [OF f(1)] f(2) have "entries (data_block s1) = []" by auto
  with ki1 f(2,3) ne have p: "pending_index_entry s1" "last_key s1 = last ks"
    by (auto simp: key_inv_def ks_def)
  from f(5) have "file_ops (wfile sf)
        = ops @ [FileAppend (fst (WriteBlock_contents E type
                   (BlockBuilder_Finish E
                      (BlockBuilder_Add (FindShortSuccessor E (last (added_keys cs)))
                              (BlockHandle_EncodeTo (pending_handle s1)) (index_block s1))))),
                 FileAppend tr, FileAppend footer]"
    by (simp add: p ks_def)
  with f(1,4) show "\<exists>s1 type tr ops footer. Flush E s = Inr s1 \<and>
          WriteBlock_type (options s1) (level s1) = Inr type \<and>
          file_ops (wfile sf)
            = ops @ [FileAppend (fst (WriteBlock_contents E type
                       (BlockBuilder_Finish E
                          (BlockBuilder_Add (FindShortSuccessor E (last (added_keys cs)))
                             (BlockHandle_EncodeTo (pending_handle s1)) (index_block s1))))),
                     FileAppend tr, FileAppend footer]"
    by (intro exI conjI)
  show "\<forall>x\<in>set (added_keys cs).
          Compare E x (FindShortSuccessor E (last (added_keys cs))) \<le> 0"
  proof
    fix x assume "x \<in> set (added_keys cs)"
    from increasing_le_last [OF c inc this]
    have "Compare E x (last (added_keys cs)) \<le> 0" .
    from contract_le_trans [OF c this contract_successor [OF c]]
    show "Compare E x (FindShortSuccessor E (last (added_keys cs))) \<le> 0" .
  qed
qed


lemmas finish_eval =
  Finish_def Finish_filter_def Finish_pending_def Finish_meta_def Finish_index_def
  Finish_footer_def Finish_stats_def AddStats_never_fails map_insert_def map_absent_def
  BytewiseLessThan_def block_of_map_def
  kRawKeySize_def kRawValueSize_def kDataSize_def kIndexSize_def
  kNumEntries_def kNumDataBlocks_def kStatsBlock_def kFilterBlockPrefix_def

lemma successor_example:
  "\<exists>s sf. calls example_env [CallAdd ''a'' ''1234'', CallAdd ''b'' ''2'']
       (TableBuilder_new example_options example_file 0) = Inr s \<and>
     Finish example_env s = Inr (OK, sf)"
  by (simp add: builder_eval finish_eval)

subsection \<open>One index entry for each data block\<close>

lemma WriteRawBlock_ops_cases:
  "(status (snd (WriteRawBlock c t r)) = OK \<and>
      (\<exists>tr. file_ops (wfile (snd (WriteRawBlock c t r)))
          = file_ops (wfile r) @ [FileAppend c, FileAppend tr])) \<or>
   (status (snd (WriteRawBlock c t r)) \<noteq> OK \<and>
      (file_ops (wfile (snd (WriteRawBlock c t r))) = file_ops (wfile r) @ [FileAppend c] \<or>
       (\<exists>tr. file_ops (wfile (snd (WriteRawBlock c t r)))
          = file_ops (wfile r) @ [FileAppend c, FileAppend tr])))"
  by (auto simp: WriteRawBlock_def Let_def file_Append_def file_call_def
      split: prod.splits list.splits if_splits)

lemma WriteBlock_ops_cases:
  assumes "WriteBlock E b r = Inr (h, b', r')"
  shows "\<exists>c. h = \<lparr>handle_offset = offset r, handle_size = of_nat (length c)\<rparr> \<and>
     ((ok r' \<and> (\<exists>tr. file_ops (wfile r') = file_ops (wfile r) @ [FileAppend c, FileAppend tr])) \<or>
      (\<not> ok r' \<and>
        (file_ops (wfile r') = file_ops (wfile r) @ [FileAppend c] \<or>
         (\<exists>tr. file_ops (wfile r') = file_ops (wfile r) @ [FileAppend c, FileAppend tr]))))"
proof -
  from assms have okr: "ok r" by (auto simp: WriteBlock_def split: if_splits)
  from assms okr obtain type where ty: "WriteBlock_type (options r) (level r) = Inr type"
    by (auto simp: WriteBlock_def Let_def split: sum.splits)
  obtain c t where ct: "WriteBlock_contents E type (BlockBuilder_Finish E b) = (c, t)"
    by fastforce
  from assms okr ty ct have h: "h = fst (WriteRawBlock c t r)"
    and r': "r' = (snd (WriteRawBlock c t r))\<lparr>compressed_output := []\<rparr>"
    by (auto simp: WriteBlock_def Let_def split: prod.splits)
  from WriteRawBlock_ops_cases [of c t r] show ?thesis
    by (intro exI [of _ c]) (simp add: h r' WriteRawBlock_handle ok_def)
qed

lemma flushed_block_same: "file_ops (wfile r') = file_ops (wfile r) \<Longrightarrow> flushed_block r r' = None"
  by (simp add: flushed_block_def new_file_ops_def)

text \<open>What a call of Flush that writes a block does to the pending entry and the counter.\<close>

lemma Flush_writes:
  assumes "Flush E r = Inr r'" "ok r" "entries (data_block r) \<noteq> []"
  shows "num_data_blocks r' = num_data_blocks r + 1 \<and> index_block r' = index_block r \<and>
     (ok r' \<longrightarrow> pending_index_entry r') \<and>
     (case flushed_block r r' of
        None \<Rightarrow> \<not> pending_index_entry r'
      | Some h \<Rightarrow> pending_index_entry r' \<and> pending_handle r' = h)"
proof -
  from Flush_cases [OF assms(1)] assms(2,3) have nc: "\<not> closed r" "\<not> pending_index_entry r"
    by auto
  with assms obtain h b1 r1 where
    wb: "WriteBlock E (data_block r) r = Inr (h, b1, r1)"
    by (auto simp: Flush_def BlockBuilder_empty_def split: sum.splits)
  with assms nc have r':
      "r' = Flush_counters (Flush_filter (Flush_file
                    (r1\<lparr>data_block := b1, pending_handle := h\<rparr>)))"
    by (auto simp: Flush_def BlockBuilder_empty_def)
  note fr = WriteBlock_frame [OF wb]
  have ops': "file_ops (wfile r') = file_ops (wfile r1) @ (if ok r1 then [FileFlush] else [])"
    by (simp add: r' Flush_counters_fields Flush_filter_fields Flush_file_fields ok_def)
  have pend: "pending_index_entry r' = ok r1"
    using fr nc by (simp add: r' Flush_counters_fields Flush_filter_fields Flush_file_fields
        same_but_sink_def ok_def)
  have ph: "pending_handle r' = h"
    by (simp add: r' Flush_counters_fields Flush_filter_fields Flush_file_fields)
  have okr': "ok r' \<longrightarrow> ok r1"
    using Flush_file_fields [of "r1\<lparr>data_block := b1, pending_handle := h\<rparr>"]
    by (simp add: r' ok_def Flush_counters_fields Flush_filter_fields)
  have cnt: "num_data_blocks r' = num_data_blocks r + 1"
    using fr by (simp add: r' Flush_counters_def Flush_filter_def Flush_file_def
        same_but_sink_def split: option.splits prod.splits)
  have ib: "index_block r' = index_block r"
    using fr by (simp add: r' Flush_counters_fields Flush_filter_fields Flush_file_fields
        same_but_sink_def)
  from WriteBlock_ops_cases [OF wb] obtain c where
    hc: "h = \<lparr>handle_offset = offset r, handle_size = of_nat (length c)\<rparr>"
    and cases: "(ok r1 \<and> (\<exists>tr. file_ops (wfile r1) = file_ops (wfile r) @ [FileAppend c, FileAppend tr])) \<or>
      (\<not> ok r1 \<and>
        (file_ops (wfile r1) = file_ops (wfile r) @ [FileAppend c] \<or>
         (\<exists>tr. file_ops (wfile r1) = file_ops (wfile r) @ [FileAppend c, FileAppend tr])))"
    by blast
  have fb: "case flushed_block r r' of
        None \<Rightarrow> \<not> pending_index_entry r'
      | Some h \<Rightarrow> pending_index_entry r' \<and> pending_handle r' = h"
    using cases ops' pend ph hc
    by (auto simp: flushed_block_def new_file_ops_def)
  from cnt ib okr' pend fb show ?thesis by simp
qed

lemma Add_pending_counter:
  "Add_pending E key r = Inr r2 \<Longrightarrow>
     num_data_blocks r2 = num_data_blocks r \<and> offset r2 = offset r"
  by (auto simp: Add_pending_def Let_def split: if_splits)

lemma Add_append_counter:
  "num_data_blocks (Add_append key val r) = num_data_blocks r"
  by (simp add: Add_append_def Let_def split: option.splits)

lemma flushed_block_wfile:
  "wfile r' = wfile r1 \<Longrightarrow> flushed_block r r' = flushed_block r r1"
  by (simp add: flushed_block_def new_file_ops_def)

text \<open>The two ways a call of Add gets to its emission step.\<close>

lemma Add_flush_step:
  assumes "Add E key val r = Inr r'" "ok r"
  shows "\<exists>r1 r2. Add_pending E key r1 = Inr r2 \<and> r' = Add_append key val r2 \<and>
     (r1 = r \<or> (Flush E r = Inr r1 \<and> entries (data_block r) \<noteq> []))"
proof -
  from Add_steps [OF assms] obtain r1 r2 where
    s: "Flush E r = Inr r1 \<or> r1 = r" "Add_pending E key r1 = Inr r2"
       "r' = Add_append key val r2"
    by (auto split: if_splits)
  show ?thesis
  proof (cases "r1 = r")
    case True
    with s show ?thesis by blast
  next
    case False
    with s(1) have f: "Flush E r = Inr r1" by simp
    from Flush_cases [OF f] False have "entries (data_block r) \<noteq> []" by auto
    with f s show ?thesis by blast
  qed
qed

lemma Add_index_exact:
  assumes "Add E key val r = Inr r'" "ok r" "pending_inv r"
  shows "entries (index_block r')
       = entries (index_block r)
         @ (case index_due r r' of
              None \<Rightarrow> []
            | Some h \<Rightarrow> [(FindShortestSeparator E (last_key r) key, BlockHandle_EncodeTo h)]) \<and>
     \<not> pending_index_entry r'"
proof -
  from Add_flush_step [OF assms(1,2)] obtain r1 r2 where
    ap: "Add_pending E key r1 = Inr r2" and r': "r' = Add_append key val r2"
    and c: "r1 = r \<or> (Flush E r = Inr r1 \<and> entries (data_block r) \<noteq> [])"
    by blast
  note apc = Add_pending_cases [OF ap]
  have w: "wfile r' = wfile r1" using apc by (simp add: r' Add_append_fields)
  have ib: "index_block r' = index_block r2" by (simp add: r' Add_append_fields)
  have np: "\<not> pending_index_entry r'" using apc by (simp add: r' Add_append_fields)
  show ?thesis
  proof (cases "r1 = r")
    case True
    with w have "flushed_block r r' = None" by (simp add: flushed_block_same)
    then have "index_due r r' = (if pending_index_entry r then Some (pending_handle r) else None)"
      by (simp add: index_due_def)
    with apc True ib np show ?thesis by (auto split: if_splits)
  next
    case False
    with c have f: "Flush E r = Inr r1" and ne: "entries (data_block r) \<noteq> []" by simp_all
    from Flush_cases [OF f] ne assms(2) have
      k: "\<not> pending_index_entry r" "last_key r1 = last_key r" "index_block r1 = index_block r"
      by auto
    note fw = Flush_writes [OF f assms(2) ne]
    have d: "index_due r r' = flushed_block r r1"
      using k(1) flushed_block_wfile [OF w, of r] by (simp add: index_due_def)
    show ?thesis
    proof (cases "flushed_block r r1")
      case None
      with fw have "\<not> pending_index_entry r1" by simp
      with apc have "r2 = r1" by simp
      with None d ib k np show ?thesis by simp
    next
      case (Some h)
      with fw have "pending_index_entry r1" "pending_handle r1 = h" by simp_all
      with apc Some d ib k np show ?thesis by simp
    qed
  qed
qed

lemma Add_count_inv:
  assumes "Add E key val r = Inr r'" "index_count_inv r" "pending_inv r"
  shows "index_count_inv r'"
proof (cases "ok r")
  case False
  with assms(1) have "r' = r" by (auto simp: Add_def split: if_splits)
  with assms(2) show ?thesis by simp
next
  case True
  from Add_steps [OF assms(1) True] have nc: "\<not> closed r" by simp
  from Add_flush_step [OF assms(1) True] obtain r1 r2 where
    ap: "Add_pending E key r1 = Inr r2" and r': "r' = Add_append key val r2"
    and c: "r1 = r \<or> (Flush E r = Inr r1 \<and> entries (data_block r) \<noteq> [])"
    by blast
  note apc = Add_pending_cases [OF ap]
  note apn = Add_pending_counter [OF ap]
  have st: "ok r' = ok r1" using apc by (simp add: r' ok_def Add_append_fields)
  have np: "\<not> pending_index_entry r'" using apc by (simp add: r' Add_append_fields)
  have ib: "index_block r' = index_block r2" by (simp add: r' Add_append_fields)
  have n: "num_data_blocks r' = num_data_blocks r1"
    using apn by (simp add: r' Add_append_counter)
  from assms(2) nc True have I: "of_nat (length (entries (index_block r)))
          + (if pending_index_entry r then 1 else 0) = num_data_blocks r"
    by (simp add: index_count_inv_def)
  show ?thesis
  proof (cases "r1 = r")
    case True
    with apc I ib n np show ?thesis
      by (auto simp: index_count_inv_def ac_simps split: if_splits)
  next
    case False
    with c have f: "Flush E r = Inr r1" and ne: "entries (data_block r) \<noteq> []" by simp_all
    from Flush_cases [OF f] ne \<open>ok r\<close> have k: "\<not> pending_index_entry r" by auto
    note fw = Flush_writes [OF f \<open>ok r\<close> ne]
    show ?thesis
      unfolding index_count_inv_def
    proof (intro impI)
      assume "\<not> closed r' \<and> ok r'"
      with st fw have p1: "pending_index_entry r1" by simp
      with apc fw have "entries (index_block r2)
          = entries (index_block r)
            @ [(FindShortestSeparator E (last_key r1) key, BlockHandle_EncodeTo (pending_handle r1))]"
        by simp
      with I k fw n np ib show "of_nat (length (entries (index_block r')))
          + (if pending_index_entry r' then 1 else 0) = num_data_blocks r'"
        by simp
    qed
  qed
qed

lemma Flush_count_inv:
  assumes "Flush E r = Inr r'" "index_count_inv r"
  shows "index_count_inv r'"
proof (cases "r' = r")
  case True
  with assms show ?thesis by simp
next
  case False
  with Flush_cases [OF assms(1)] have
    f: "\<not> closed r" "ok r" "entries (data_block r) \<noteq> []" "\<not> pending_index_entry r"
    by auto
  note fw = Flush_writes [OF assms(1) f(2,3)]
  from assms(2) f have "of_nat (length (entries (index_block r))) = num_data_blocks r"
    by (simp add: index_count_inv_def)
  with fw show ?thesis by (simp add: index_count_inv_def)
qed

lemma call_count_inv:
  assumes "call E c r = Inr r'" "index_count_inv r" "pending_inv r"
  shows "index_count_inv r'"
proof (cases c)
  case (CallAdd k v)
  with assms show ?thesis using Add_count_inv by simp
next
  case CallFlush
  with assms show ?thesis using Flush_count_inv by simp
next
  case CallFinish
  with assms obtain st where "Finish E r = Inr (st, r')"
    by (auto split: sum.splits)
  from Finish_steps [OF this] show ?thesis by (auto simp: index_count_inv_def)
next
  case CallAbandon
  with assms show ?thesis
    by (auto simp: Abandon_def index_count_inv_def split: if_splits)
qed

lemma calls_count_inv:
  "calls E cs r = Inr r' \<Longrightarrow> index_count_inv r \<Longrightarrow> pending_inv r \<Longrightarrow> index_count_inv r'"
proof (induction cs arbitrary: r)
  case Nil
  then show ?case by simp
next
  case (Cons c cs)
  then obtain r1 where 1: "call E c r = Inr r1" "calls E cs r1 = Inr r'"
    by (auto split: sum.splits)
  from call_count_inv [OF 1(1) Cons.prems(2,3)] call_inv [OF 1(1) Cons.prems(3)]
  show ?case using Cons.IH [OF 1(2)] by simp
qed

lemma new_count_inv: "index_count_inv (TableBuilder_new opt f lvl)"
  by (simp add: index_count_inv_def TableBuilder_new_def BlockBuilder_new_def)

lemma reachable_count_inv:
  "calls E cs (TableBuilder_new opt f lvl) = Inr r \<Longrightarrow> index_count_inv r"
  using calls_count_inv [OF _ new_count_inv new_inv] by blast

lemma reachable_pending_inv:
  "calls E cs (TableBuilder_new opt f lvl) = Inr r \<Longrightarrow> pending_inv r"
  using calls_inv [OF _ new_inv] by blast

lemma separator_due:
  assumes c: "comparator_contract E"
    and inc: "increasing E (added_keys (pre @ CallAdd key val # post))"
    and run: "calls E pre (TableBuilder_new opt f lvl) = Inr r"
    and okr: "ok r"
    and add: "Add E key val r = Inr r'"
  shows "entries (index_block r')
       = entries (index_block r)
         @ (case index_due r r' of
              None \<Rightarrow> []
            | Some h \<Rightarrow> [(FindShortestSeparator E (last (added_keys pre)) key,
                          BlockHandle_EncodeTo h)]) \<and>
     \<not> pending_index_entry r' \<and>
     (index_due r r' \<noteq> None \<longrightarrow>
        added_keys pre \<noteq> [] \<and>
        entries (data_block r') = [(key, val)] \<and>
        Compare E (last (added_keys pre))
          (FindShortestSeparator E (last (added_keys pre)) key) \<le> 0 \<and>
        (\<forall>x\<in>set (added_keys pre).
           Compare E x (FindShortestSeparator E (last (added_keys pre)) key) \<le> 0) \<and>
        Compare E (FindShortestSeparator E (last (added_keys pre)) key) key < 0 \<and>
        (\<forall>y\<in>set (added_keys post).
           Compare E (FindShortestSeparator E (last (added_keys pre)) key) y < 0))"
proof -
  note ex = Add_index_exact [OF add okr reachable_pending_inv [OF run]]
  from Add_steps [OF add okr] have nc: "\<not> closed r" by simp
  note ki = reachable_key_inv [OF run]
  show ?thesis
  proof (cases "index_due r r'")
    case None
    with ex show ?thesis by simp
  next
    case (Some h)
    with ex have new: "entries (index_block r') \<noteq> entries (index_block r)" by simp
    note se = separator_entry [OF c inc run add new]
    then have "added_keys pre \<noteq> []" by simp
    with ki nc okr have "last_key r = last (added_keys pre)" by (simp add: key_inv_def)
    with ex se Some show ?thesis by simp
  qed
qed

lemma two_blocks_example:
  "\<exists>q r r'. calls example_env [CallAdd ''a'' ''1234'']
         (TableBuilder_new example_options example_file 0) = Inr q \<and>
     calls example_env [CallAdd ''a'' ''1234'', CallAdd ''b'' ''2345'']
       (TableBuilder_new example_options example_file 0) = Inr r \<and>
     Flush example_env q \<noteq> Inl IndexOutOfRange \<and>
     ok q \<and> entries (data_block q) \<noteq> [] \<and>
     ok r \<and> map fst (entries (index_block r)) = [''a''] \<and>
     Add example_env ''c'' ''3'' r = Inr r' \<and>
     calls example_env [CallAdd ''a'' ''1234'', CallAdd ''b'' ''2345'', CallAdd ''c'' ''3'']
       (TableBuilder_new example_options example_file 0) = Inr r' \<and>
     ok r' \<and> \<not> closed r' \<and>
     index_due r r' \<noteq> None \<and>
     num_data_blocks r' = 2"
  by (simp add: builder_eval index_due_def flushed_block_def new_file_ops_def)

lemma flush_example:
  "\<exists>q q'. calls example_env [CallAdd ''a'' ''1234'']
         (TableBuilder_new example_options example_file 0) = Inr q \<and>
     Flush example_env q = Inr q' \<and> ok q \<and> entries (data_block q) \<noteq> [] \<and> ok q'"
  by (simp add: builder_eval)

text \<open>
  C2. Let the comparator meet its contract and let strictly increasing keys be added from
  the constructor on. A \<open>Flush\<close> of a non-empty data block counts one more data block,
  leaves the index block alone and, when the block reached the file, makes its handle
  the pending one. Every call \<open>Add key\<close> in an ok state extends the index block by exactly
  the entry of the block that is due, and by nothing when none is due: the due block is
  the pending one, or the one this call flushes. The entry holds the handle of that
  block and the key \<open>FindShortestSeparator L key\<close>, where \<open>L\<close>, the last key added
  before, is the last key of that block and \<open>key\<close> becomes the first key of the next
  block; the index key is not less than \<open>L\<close> nor than any key added before, and it is
  less than \<open>key\<close> and than every key added later. Hence in every open ok state the index
  entries and the pending one are as many as the data blocks written. When \<open>Finish\<close>
  returns ok after at least one key, the index block it writes to the file ends with an
  entry whose key is \<open>FindShortSuccessor\<close> of the last key added, which is not less than
  any key added.
\<close>

theorem index_keys_separate_blocks:
  assumes "comparator_contract E"
  shows
   "(increasing E (added_keys (pre @ CallAdd key val # post)) \<and>
     calls E pre (TableBuilder_new opt f lvl) = Inr r \<and> ok r \<and>
     Add E key val r = Inr r' \<longrightarrow>
       entries (index_block r')
         = entries (index_block r)
           @ (case index_due r r' of
                None \<Rightarrow> []
              | Some h \<Rightarrow> [(FindShortestSeparator E (last (added_keys pre)) key,
                            BlockHandle_EncodeTo h)]) \<and>
       \<not> pending_index_entry r' \<and>
       (index_due r r' \<noteq> None \<longrightarrow>
          added_keys pre \<noteq> [] \<and>
          entries (data_block r') = [(key, val)] \<and>
          Compare E (last (added_keys pre))
            (FindShortestSeparator E (last (added_keys pre)) key) \<le> 0 \<and>
          (\<forall>x\<in>set (added_keys pre).
             Compare E x (FindShortestSeparator E (last (added_keys pre)) key) \<le> 0) \<and>
          Compare E (FindShortestSeparator E (last (added_keys pre)) key) key < 0 \<and>
          (\<forall>y\<in>set (added_keys post).
             Compare E (FindShortestSeparator E (last (added_keys pre)) key) y < 0))) \<and>
    (Flush E q = Inr q' \<and> ok q \<and> entries (data_block q) \<noteq> [] \<longrightarrow>
       num_data_blocks q' = num_data_blocks q + 1 \<and> index_block q' = index_block q \<and>
       (ok q' \<longrightarrow> pending_index_entry q') \<and>
       (case flushed_block q q' of
          None \<Rightarrow> \<not> pending_index_entry q'
        | Some h \<Rightarrow> pending_index_entry q' \<and> pending_handle q' = h)) \<and>
    (calls E cs' (TableBuilder_new opt f lvl) = Inr u \<and> \<not> closed u \<and> ok u \<longrightarrow>
       of_nat (length (entries (index_block u)))
         + (if pending_index_entry u then 1 else 0) = num_data_blocks u) \<and>
    (increasing E (added_keys cs) \<and> added_keys cs \<noteq> [] \<and>
     calls E cs (TableBuilder_new opt f lvl) = Inr s \<and> Finish E s = Inr (OK, sf) \<longrightarrow>
       (\<exists>s1 type tr ops footer. Flush E s = Inr s1 \<and>
          WriteBlock_type (options s1) (level s1) = Inr type \<and>
          file_ops (wfile sf)
            = ops @ [FileAppend (fst (WriteBlock_contents E type
                       (BlockBuilder_Finish E
                          (BlockBuilder_Add (FindShortSuccessor E (last (added_keys cs)))
                             (BlockHandle_EncodeTo (pending_handle s1)) (index_block s1))))),
                     FileAppend tr, FileAppend footer]) \<and>
       (\<forall>x\<in>set (added_keys cs).
          Compare E x (FindShortSuccessor E (last (added_keys cs))) \<le> 0))"
proof (intro conjI)
  show "increasing E (added_keys (pre @ CallAdd key val # post)) \<and>
     calls E pre (TableBuilder_new opt f lvl) = Inr r \<and> ok r \<and>
     Add E key val r = Inr r' \<longrightarrow>
       entries (index_block r')
         = entries (index_block r)
           @ (case index_due r r' of
                None \<Rightarrow> []
              | Some h \<Rightarrow> [(FindShortestSeparator E (last (added_keys pre)) key,
                            BlockHandle_EncodeTo h)]) \<and>
       \<not> pending_index_entry r' \<and>
       (index_due r r' \<noteq> None \<longrightarrow>
          added_keys pre \<noteq> [] \<and>
          entries (data_block r') = [(key, val)] \<and>
          Compare E (last (added_keys pre))
            (FindShortestSeparator E (last (added_keys pre)) key) \<le> 0 \<and>
          (\<forall>x\<in>set (added_keys pre).
             Compare E x (FindShortestSeparator E (last (added_keys pre)) key) \<le> 0) \<and>
          Compare E (FindShortestSeparator E (last (added_keys pre)) key) key < 0 \<and>
          (\<forall>y\<in>set (added_keys post).
             Compare E (FindShortestSeparator E (last (added_keys pre)) key) y < 0))"
    using separator_due [OF assms, of pre key val post opt f lvl r r'] by (intro impI) simp
  show "Flush E q = Inr q' \<and> ok q \<and> entries (data_block q) \<noteq> [] \<longrightarrow>
       num_data_blocks q' = num_data_blocks q + 1 \<and> index_block q' = index_block q \<and>
       (ok q' \<longrightarrow> pending_index_entry q') \<and>
       (case flushed_block q q' of
          None \<Rightarrow> \<not> pending_index_entry q'
        | Some h \<Rightarrow> pending_index_entry q' \<and> pending_handle q' = h)"
    using Flush_writes [of E q q'] by (intro impI) simp
  show "calls E cs' (TableBuilder_new opt f lvl) = Inr u \<and> \<not> closed u \<and> ok u \<longrightarrow>
       of_nat (length (entries (index_block u)))
         + (if pending_index_entry u then 1 else 0) = num_data_blocks u"
    using reachable_count_inv [of E cs' opt f lvl u] by (simp add: index_count_inv_def)
  show "increasing E (added_keys cs) \<and> added_keys cs \<noteq> [] \<and>
     calls E cs (TableBuilder_new opt f lvl) = Inr s \<and> Finish E s = Inr (OK, sf) \<longrightarrow>
       (\<exists>s1 type tr ops footer. Flush E s = Inr s1 \<and>
          WriteBlock_type (options s1) (level s1) = Inr type \<and>
          file_ops (wfile sf)
            = ops @ [FileAppend (fst (WriteBlock_contents E type
                       (BlockBuilder_Finish E
                          (BlockBuilder_Add (FindShortSuccessor E (last (added_keys cs)))
                             (BlockHandle_EncodeTo (pending_handle s1)) (index_block s1))))),
                     FileAppend tr, FileAppend footer]) \<and>
       (\<forall>x\<in>set (added_keys cs).
          Compare E x (FindShortSuccessor E (last (added_keys cs))) \<le> 0)"
    using successor_entry [OF assms, of cs opt f lvl s sf] by (intro impI) simp
qed

theorem index_keys_separate_blocks_witness:
  "\<exists>q q' r r' s sf.
     calls example_env [CallAdd ''a'' ''1234'']
       (TableBuilder_new example_options example_file 0) = Inr q \<and>
     Flush example_env q = Inr q' \<and>
     pending_index_entry q' \<and> num_data_blocks q' = num_data_blocks q + 1 \<and>
     calls example_env [CallAdd ''a'' ''1234'', CallAdd ''b'' ''2345'']
       (TableBuilder_new example_options example_file 0) = Inr r \<and>
     Add example_env ''c'' ''3'' r = Inr r' \<and>
     map fst (entries (index_block r')) = [''a'', ''b''] \<and>
     entries (data_block r') = [(''c'', ''3'')] \<and>
     num_data_blocks r' = 2 \<and>
     (of_nat (length (entries (index_block r'))) :: 64 word) = 2 \<and>
     BytewiseCompare ''b'' ''b'' \<le> 0 \<and> BytewiseCompare ''a'' ''b'' \<le> 0 \<and>
     BytewiseCompare ''b'' ''c'' < 0 \<and> BytewiseCompare ''b'' ''d'' < 0 \<and>
     calls example_env [CallAdd ''a'' ''1234'', CallAdd ''b'' ''2'']
       (TableBuilder_new example_options example_file 0) = Inr s \<and>
     Finish example_env s = Inr (OK, sf)"
proof -
  from flush_example obtain q q' where
    f: "calls example_env [CallAdd ''a'' ''1234'']
          (TableBuilder_new example_options example_file 0) = Inr q"
       "Flush example_env q = Inr q'" "ok q" "entries (data_block q) \<noteq> []" "ok q'"
    by (elim exE conjE)
  from two_blocks_example obtain r r' where
    a: "calls example_env [CallAdd ''a'' ''1234'', CallAdd ''b'' ''2345'']
          (TableBuilder_new example_options example_file 0) = Inr r"
       "ok r" "map fst (entries (index_block r)) = [''a'']"
       "Add example_env ''c'' ''3'' r = Inr r'"
       "calls example_env [CallAdd ''a'' ''1234'', CallAdd ''b'' ''2345'', CallAdd ''c'' ''3'']
          (TableBuilder_new example_options example_file 0) = Inr r'"
       "ok r'" "\<not> closed r'" "index_due r r' \<noteq> None" "num_data_blocks r' = 2"
    by (elim exE conjE)
  from successor_example obtain s sf where
    b: "calls example_env [CallAdd ''a'' ''1234'', CallAdd ''b'' ''2'']
          (TableBuilder_new example_options example_file 0) = Inr s"
       "Finish example_env s = Inr (OK, sf)"
    by (elim exE conjE)
  have inc: "increasing example_env
       (added_keys ([CallAdd ''a'' ''1234'', CallAdd ''b'' ''2345''] @ CallAdd ''c'' ''3''
          # [CallAdd ''d'' ''4'']))"
    "increasing example_env (added_keys [CallAdd ''a'' ''1234'', CallAdd ''b'' ''2''])"
    by (simp_all add: example_env_def)
  from a(8) obtain h where h: "index_due r r' = Some h" by auto
  note w = index_keys_separate_blocks [OF example_env_contract,
      of "[CallAdd ''a'' ''1234'', CallAdd ''b'' ''2345'']" "''c''" "''3''" "[CallAdd ''d'' ''4'']"
         example_options example_file 0 r r' q q'
         "[CallAdd ''a'' ''1234'', CallAdd ''b'' ''2345'', CallAdd ''c'' ''3'']" r'
         "[CallAdd ''a'' ''1234'', CallAdd ''b'' ''2'']" s sf]
  from conjunct1 [OF w] inc(1) a(1-4) h have 1:
    "map fst (entries (index_block r')) = [''a'', ''b''] \<and>
     entries (data_block r') = [(''c'', ''3'')] \<and>
     BytewiseCompare ''b'' ''b'' \<le> 0 \<and> BytewiseCompare ''a'' ''b'' \<le> 0 \<and>
     BytewiseCompare ''b'' ''c'' < 0 \<and> BytewiseCompare ''b'' ''d'' < 0"
    and np: "\<not> pending_index_entry r'"
    by (simp_all add: example_env_def)
  from conjunct1 [OF conjunct2 [OF w]] f(2-5)
  have 2: "pending_index_entry q' \<and> num_data_blocks q' = num_data_blocks q + 1"
    by simp
  from conjunct1 [OF conjunct2 [OF conjunct2 [OF w]]] a(5-7,9) np
  have 3: "(of_nat (length (entries (index_block r'))) :: 64 word) = 2"
    by simp
  note parts = f(1,2) conjunct1 [OF 2] conjunct2 [OF 2] a(1,4)
    conjunct1 [OF 1] conjunct1 [OF conjunct2 [OF 1]] a(9) 3
    conjunct1 [OF conjunct2 [OF conjunct2 [OF 1]]]
    conjunct1 [OF conjunct2 [OF conjunct2 [OF conjunct2 [OF 1]]]]
    conjunct1 [OF conjunct2 [OF conjunct2 [OF conjunct2 [OF conjunct2 [OF 1]]]]]
    conjunct2 [OF conjunct2 [OF conjunct2 [OF conjunct2 [OF conjunct2 [OF 1]]]]]
    b
  show ?thesis
    by (rule exI conjI parts)+
qed

section \<open>Properties of the write batch\<close>

subsection \<open>Decoding what was encoded\<close>

lemma of_char_char_of_small: "n < 256 \<Longrightarrow> (of_char (char_of n) :: nat) = n"
  by simp

lemma GetVarint32_from_PutVarint:
  "k \<le> 4 \<Longrightarrow> n < 128 ^ (5 - k) \<Longrightarrow>
     GetVarint32_from (7 * k) r (PutVarint n @ rest) = Some (r + n * 2 ^ (7 * k), rest)"
proof (induction n arbitrary: k r rule: PutVarint.induct)
  case (1 n)
  show ?case
  proof (cases "n < 128")
    case True
    then have "PutVarint n = [char_of n]" by (simp add: PutVarint.simps)
    with True "1.prems" show ?thesis by simp
  next
    case False
    then have pv: "PutVarint n = char_of (n mod 128 + 128) # PutVarint (n div 128)"
      by (subst PutVarint.simps) simp
    have k3: "k \<le> 3"
    proof (rule ccontr)
      assume "\<not> k \<le> 3"
      with "1.prems" have "k = 4" by simp
      with "1.prems" False show False by simp
    qed
    then have "(5 - k) = Suc (4 - k)" by simp
    with "1.prems"(2) have "n < 128 * 128 ^ (4 - k)" by simp
    then have d: "n div 128 < 128 ^ (5 - Suc k)"
      using k3 by (simp add: less_mult_imp_div_less mult.commute)
    have b: "(of_char (char_of (n mod 128 + 128)) :: nat) = n mod 128 + 128"
      by (rule of_char_char_of_small) simp
    have s1: "GetVarint32_from (7 * k) r (PutVarint n @ rest)
        = GetVarint32_from (7 * Suc k) (r + (n mod 128) * 2 ^ (7 * k))
            (PutVarint (n div 128) @ rest)"
      using k3 by (simp add: pv b add.commute)
    have s2: "GetVarint32_from (7 * Suc k) (r + (n mod 128) * 2 ^ (7 * k))
            (PutVarint (n div 128) @ rest)
       = Some (r + (n mod 128) * 2 ^ (7 * k) + (n div 128) * 2 ^ (7 * Suc k), rest)"
      using "1.IH" [OF False _ d] k3 by simp
    have ar: "(n mod 128) * 2 ^ (7 * k) + (n div 128) * 2 ^ (7 * Suc k) = n * 2 ^ (7 * k)"
    proof -
      define p :: nat where "p = 2 ^ (7 * k)"
      have e: "(2::nat) ^ (7 * Suc k) = 128 * p" by (simp add: p_def power_add)
      have g: "m * p + q * (128 * p) = (m + 128 * q) * p" for m q :: nat
        by (simp add: algebra_simps)
      have "n mod 128 + 128 * (n div 128) = n" by simp
      with g [of "n mod 128" "n div 128"]
      have "n mod 128 * p + n div 128 * (128 * p) = n * p" by simp
      then show ?thesis by (simp only: e p_def [symmetric])
    qed
    show ?thesis by (simp only: s1 s2 add.assoc ar)
  qed
qed

lemma GetVarint32_PutVarint32: "GetVarint32 (PutVarint32 w @ rest) = Some (w, rest)"
proof -
  have "unat w < 2 ^ 32" using unsigned_less [of w] by simp
  then have "unat w < 128 ^ (5 - 0)" by simp
  from GetVarint32_from_PutVarint [OF _ this, of 0 rest] show ?thesis
    by (simp add: GetVarint32_def PutVarint32_def)
qed

lemma GetLengthPrefixedSlice_Put:
  "length s < 2 ^ 32 \<Longrightarrow>
     GetLengthPrefixedSlice (PutLengthPrefixedSlice s @ rest) = Some (s, rest)"
  by (simp add: GetLengthPrefixedSlice_def PutLengthPrefixedSlice_def GetVarint32_PutVarint32
      unat_of_nat)

lemma tag_type_type_tag: "tag_type (type_tag t) = Some t"
  by (cases t) (simp_all add: tag_type_def)

lemma Iterate_loop_encode_op:
  "op_fits op \<Longrightarrow>
     Iterate_loop (encode_op op @ rest) = then_continue (call_of op) (Iterate_loop rest)"
  by (cases op)
     (simp_all add: tag_type_type_tag GetLengthPrefixedSlice_Put del: type_tag.simps)

lemma Iterate_loop_records:
  "list_all op_fits ops \<Longrightarrow>
     Iterate_loop (concat (map encode_op ops) @ rest)
       = (map call_of ops @ fst (Iterate_loop rest), snd (Iterate_loop rest))"
proof (induction ops)
  case Nil
  then show ?case by simp
next
  case (Cons op ops)
  then show ?case
    by (simp add: Iterate_loop_encode_op del: encode_op.simps)
qed

lemma le_decode_encode: "le_decode (le_encode n v) = v mod 256 ^ n"
proof (induction n arbitrary: v)
  case 0
  then show ?case by simp
next
  case (Suc n)
  have "v mod 256 + 256 * (v div 256 mod 256 ^ n) = v mod (256 * 256 ^ n)"
    by (simp add: mod_mult2_eq)
  with Suc show ?case by simp
qed

lemma DecodeFixed32_Encode: "DecodeFixed32 (EncodeFixed32 v @ rest) = v"
proof -
  have "unat v < 2 ^ 32" using unsigned_less [of v] by simp
  then have "unat v mod 256 ^ 4 = unat v" by simp
  then show ?thesis
    by (simp add: DecodeFixed32_def EncodeFixed32_def le_encode_length le_decode_encode)
qed

lemma DecodeFixed64_Encode: "DecodeFixed64 (EncodeFixed64 v @ rest) = v"
proof -
  have "unat v < 2 ^ 64" using unsigned_less [of v] by simp
  then have "unat v mod 256 ^ 8 = unat v" by simp
  then show ?thesis
    by (simp add: DecodeFixed64_def EncodeFixed64_def le_encode_length le_decode_encode)
qed

lemma EncodeFixed64_length: "length (EncodeFixed64 v) = 8"
  by (simp add: EncodeFixed64_def le_encode_length)

lemma SetCount_fields:
  assumes "header_ok b"
  shows "header_ok (SetCount b n) \<and> Count (SetCount b n) = n \<and>
     Sequence (SetCount b n) = Sequence b \<and>
     drop kHeader (rep (SetCount b n)) = drop kHeader (rep b)"
proof -
  from assms have l: "length (rep b) \<ge> 12" by (simp add: header_ok_def kHeader_def)
  then have m: "min (length (rep b)) 8 = 8" by simp
  from l have l8: "8 \<le> length (rep b)" by simp
  have "Sequence (SetCount b n) = Sequence b"
    by (simp add: Sequence_def SetCount_def DecodeFixed64_def kHeader_def l8 m)
  then show ?thesis
    using l by (simp add: header_ok_def kHeader_def SetCount_def Count_def m
        DecodeFixed32_Encode EncodeFixed32_length)
qed

lemma SetSequence_fields:
  assumes "header_ok b"
  shows "header_ok (SetSequence b s) \<and> Sequence (SetSequence b s) = s \<and>
     Count (SetSequence b s) = Count b \<and>
     drop kHeader (rep (SetSequence b s)) = drop kHeader (rep b)"
proof -
  from assms have l: "length (rep b) \<ge> 12" by (simp add: header_ok_def kHeader_def)
  then show ?thesis
    by (simp add: header_ok_def kHeader_def SetSequence_def Count_def Sequence_def
        DecodeFixed64_Encode EncodeFixed64_length)
qed

lemma replicate_12: "replicate 12 c = [c, c, c, c, c, c, c, c, c, c, c, c]"
  by (simp add: numeral_eq_Suc)

lemma new_fields:
  "header_ok WriteBatch_new \<and> Count WriteBatch_new = 0 \<and> Sequence WriteBatch_new = 0 \<and>
   drop kHeader (rep WriteBatch_new) = []"
  by (simp add: header_ok_def WriteBatch_new_def Count_def Sequence_def kHeader_def
      DecodeFixed32_def DecodeFixed64_def replicate_12)

lemma apply_op_fields:
  assumes "header_ok b"
  shows "header_ok (apply_op op b) \<and>
     Count (apply_op op b) = Count b + (if counted op then 1 else 0) \<and>
     Sequence (apply_op op b) = Sequence b \<and>
     drop kHeader (rep (apply_op op b)) = drop kHeader (rep b) @ encode_op op"
proof -
  note sc = SetCount_fields [OF assms, of "Count b + 1"]
  from sc have l: "kHeader \<le> length (rep (SetCount b (Count b + 1)))"
    by (simp add: header_ok_def)
  have u: "header_ok (c\<lparr>rep := rep c @ x\<rparr>) \<and> Count (c\<lparr>rep := rep c @ x\<rparr>) = Count c \<and>
      Sequence (c\<lparr>rep := rep c @ x\<rparr>) = Sequence c \<and>
      drop kHeader (rep (c\<lparr>rep := rep c @ x\<rparr>)) = drop kHeader (rep c) @ x"
    if "header_ok c" for c x
    using that
    by (simp add: header_ok_def Count_def Sequence_def DecodeFixed32_def DecodeFixed64_def
        kHeader_def)
  show ?thesis
  proof (cases op)
    case (OpPut k v)
    with u [OF conjunct1 [OF sc]] sc show ?thesis
      by (simp add: Put_def Let_def del: type_tag.simps)
  next
    case (OpDelete k)
    with u [OF conjunct1 [OF sc]] sc show ?thesis
      by (simp add: Delete_def Let_def del: type_tag.simps)
  next
    case (OpMerge k v)
    with u [OF conjunct1 [OF sc]] sc show ?thesis
      by (simp add: Merge_def Let_def del: type_tag.simps)
  next
    case (OpLogData blob)
    with u [OF assms] show ?thesis
      by (simp add: PutLogData_def del: type_tag.simps)
  qed
qed

lemma fold_apply_op_fields:
  "header_ok b \<Longrightarrow>
     header_ok (fold apply_op ops b) \<and>
     Count (fold apply_op ops b) = Count b + of_nat (length (filter counted ops)) \<and>
     Sequence (fold apply_op ops b) = Sequence b \<and>
     drop kHeader (rep (fold apply_op ops b)) = drop kHeader (rep b) @ concat (map encode_op ops)"
proof (induction ops arbitrary: b)
  case Nil
  then show ?case by simp
next
  case (Cons op ops)
  note a = apply_op_fields [OF Cons.prems, of op]
  from Cons.IH [of "apply_op op b"] a show ?case
    by (simp del: apply_op.simps encode_op.simps counted.simps)
qed

lemma batch_of_fields:
  "header_ok (batch_of s ops) \<and>
   Count (batch_of s ops) = of_nat (length (filter counted ops)) \<and>
   Sequence (batch_of s ops) = s \<and>
   drop kHeader (rep (batch_of s ops)) = concat (map encode_op ops)"
  using fold_apply_op_fields [OF conjunct1 [OF new_fields], of ops]
    SetSequence_fields [of "fold apply_op ops WriteBatch_new" s] new_fields
  by (simp add: batch_of_def)

subsection \<open>Sequence numbers in replay\<close>

lemma entries_shift:
  "map (\<lambda>(i, op). entry_of (seq + of_nat i) op) (enumerate (Suc n) xs)
     = map (\<lambda>(i, op). entry_of (seq + 1 + of_nat i) op) (enumerate n xs)"
  by (simp add: enumerate_Suc_eq case_prod_beta ac_simps)

lemma expected_entries_Cons:
  "expected_entries seq (op # ops)
     = (if counted op then entry_of seq op # expected_entries (seq + 1) ops
        else expected_entries seq ops)"
  using entries_shift [of seq 0 "filter counted ops"]
  by (simp add: expected_entries_def del: counted.simps)

lemma MemTableInserter_call_of:
  "MemTableInserter (call_of op) (seq, mem)
     = (if counted op then (seq + 1, mem @ [entry_of seq op]) else (seq, mem))"
  by (cases op) simp_all

lemma fold_inserter_ops:
  "fold MemTableInserter (map call_of ops) (seq, mem)
     = (seq + of_nat (length (filter counted ops)), mem @ expected_entries seq ops)"
proof (induction ops arbitrary: seq mem)
  case Nil
  then show ?case by (simp add: expected_entries_def)
next
  case (Cons op ops)
  then show ?case
    by (simp add: MemTableInserter_call_of expected_entries_Cons add.assoc
        del: counted.simps call_of.simps)
qed

lemma Iterate_batch_of:
  "list_all op_fits ops \<Longrightarrow> Iterate (batch_of s ops) = (map call_of ops, OK)"
  using Iterate_loop_records [of ops "[]"] batch_of_fields [of s ops]
  by (simp add: Iterate_def)

lemma InsertInto_batch_of:
  "list_all op_fits ops \<Longrightarrow>
     InsertInto (batch_of s ops) mem = (OK, mem @ expected_entries s ops)"
  using batch_of_fields [of s ops]
  by (simp add: InsertInto_def Iterate_batch_of fold_inserter_ops)

lemma expected_entries_nth:
  "i < length (filter counted ops) \<Longrightarrow>
     expected_entries s ops ! i = entry_of (s + of_nat i) (filter counted ops ! i)"
  by (simp add: expected_entries_def nth_enumerate_eq)


text \<open>
  C6. For a batch built through the interface and given the sequence base \<open>s\<close>, replay
  succeeds and inserts, in the order of the records, exactly one entry per put, delete
  and merge, the \<open>i\<close>-th of them (from 0) under the sequence number \<open>s + i\<close>. Log data
  is handed to the handler by \<open>Iterate\<close> but is not inserted, takes no sequence number
  and is not counted in the header.
\<close>

theorem replay_assigns_sequences:
  "list_all op_fits ops \<longrightarrow>
     InsertInto (batch_of s ops) mem = (OK, mem @ expected_entries s ops) \<and>
     length (expected_entries s ops) = length (filter counted ops) \<and>
     (\<forall>i < length (filter counted ops).
        expected_entries s ops ! i = entry_of (s + of_nat i) (filter counted ops ! i)) \<and>
     Count (batch_of s ops) = of_nat (length (filter counted ops)) \<and>
     Sequence (batch_of s ops) = s \<and>
     Iterate (batch_of s ops) = (map call_of ops, OK)"
  using batch_of_fields [of s ops]
  by (simp add: InsertInto_batch_of Iterate_batch_of expected_entries_nth)
     (simp add: expected_entries_def)

theorem replay_assigns_sequences_witness:
  "InsertInto
     (batch_of 0 [OpPut ''k1'' ''v1'', OpPut ''k2'' ''v2'', OpPut ''k3'' ''v3'',
                  OpLogData ''blob1'', OpDelete ''k2'', OpLogData ''blob2'',
                  OpMerge ''foo'' ''bar'']) []
     = (OK, [(0, kTypeValue, ''k1'', ''v1''), (1, kTypeValue, ''k2'', ''v2''),
             (2, kTypeValue, ''k3'', ''v3''), (3, kTypeDeletion, ''k2'', []),
             (4, kTypeMerge, ''foo'', ''bar'')]) \<and>
   Count (batch_of 0 [OpPut ''k1'' ''v1'', OpPut ''k2'' ''v2'', OpPut ''k3'' ''v3'',
                  OpLogData ''blob1'', OpDelete ''k2'', OpLogData ''blob2'',
                  OpMerge ''foo'' ''bar'']) = 5"
  using replay_assigns_sequences
    [of "[OpPut ''k1'' ''v1'', OpPut ''k2'' ''v2'', OpPut ''k3'' ''v3'',
          OpLogData ''blob1'', OpDelete ''k2'', OpLogData ''blob2'',
          OpMerge ''foo'' ''bar'']" 0 "[]"]
  by (simp add: expected_entries_def enumerate_eq_zip upt_rec)

subsection \<open>Append\<close>

lemma GetVarint32_from_append:
  "GetVarint32_from shift r p = Some (v, rest) \<Longrightarrow>
     GetVarint32_from shift r (p @ q) = Some (v, rest @ q)"
  by (induction shift r p rule: GetVarint32_from.induct) (auto split: if_splits)

lemma GetLengthPrefixedSlice_append:
  assumes "GetLengthPrefixedSlice p = Some (s, rest)"
  shows "GetLengthPrefixedSlice (p @ q) = Some (s, rest @ q)"
proof -
  from assms obtain v r1 where
    v: "GetVarint32_from 0 0 p = Some (v, r1)"
    and l: "unat (of_nat v :: 32 word) \<le> length r1"
    and s: "s = take (unat (of_nat v :: 32 word)) r1"
       "rest = drop (unat (of_nat v :: 32 word)) r1"
    by (auto simp: GetLengthPrefixedSlice_def GetVarint32_def
        split: option.splits if_splits)
  from GetVarint32_from_append [OF v, of q] l s show ?thesis
    by (simp add: GetLengthPrefixedSlice_def GetVarint32_def)
qed

lemma then_continue_OK:
  "then_continue c x = (cs, OK) \<Longrightarrow> \<exists>cs'. x = (cs', OK) \<and> cs = c # cs'"
  by (cases x) auto

lemma then_continue_pair:
  "then_continue c x = (c # fst x, snd x)"
  by (cases x) simp

lemma Iterate_loop_append:
  "Iterate_loop p = (cs, OK) \<Longrightarrow>
     Iterate_loop (p @ q) = (cs @ fst (Iterate_loop q), snd (Iterate_loop q))"
proof (induction "length p" arbitrary: p cs rule: less_induct)
  case less
  show ?case
  proof (cases p)
    case Nil
    with less.prems show ?thesis by simp
  next
    case (Cons tag input)
    have step: "Iterate_loop (rest @ q) = (cs' @ fst (Iterate_loop q), snd (Iterate_loop q))"
      if "Iterate_loop rest = (cs', OK)" "length rest < length input" for rest cs'
      using less.hyps [of rest cs'] that Cons by simp
    show ?thesis
    proof (cases "tag_type tag")
      case None
      with less.prems Cons show ?thesis by simp
    next
      case (Some t)
      show ?thesis
      proof (cases "GetLengthPrefixedSlice input")
        case None
        with Some less.prems Cons show ?thesis by (cases t) simp_all
      next
        case first: (Some kr)
        obtain key input1 where kr: "kr = (key, input1)" by (cases kr)
        note g1 = first [unfolded kr]
        note a1 = GetLengthPrefixedSlice_append [OF g1, of q]
        note l1 = GetLengthPrefixedSlice_shorter [OF g1]
        show ?thesis
        proof (cases "GetLengthPrefixedSlice input1")
          case None
          show ?thesis
          proof (cases t)
            case kTypeDeletion
            with Some g1 less.prems Cons obtain cs' where
              c: "Iterate_loop input1 = (cs', OK)" "cs = HandlerDelete key # cs'"
              by (auto dest: then_continue_OK)
            from step [OF c(1) l1] c(2) Some kTypeDeletion a1 Cons
            show ?thesis by (simp add: then_continue_pair)
          next
            case kTypeLogData
            with Some g1 less.prems Cons obtain cs' where
              c: "Iterate_loop input1 = (cs', OK)" "cs = HandlerLogData key # cs'"
              by (auto dest: then_continue_OK)
            from step [OF c(1) l1] c(2) Some kTypeLogData a1 Cons
            show ?thesis by (simp add: then_continue_pair)
          next
            case kTypeValue
            with None Some g1 less.prems Cons show ?thesis by simp
          next
            case kTypeMerge
            with None Some g1 less.prems Cons show ?thesis by simp
          qed
        next
          case second: (Some vr)
          obtain val input2 where vr: "vr = (val, input2)" by (cases vr)
          note g2 = second [unfolded vr]
          note a2 = GetLengthPrefixedSlice_append [OF g2, of q]
          from GetLengthPrefixedSlice_shorter [OF g2] l1
          have l2: "length input2 < length input" by simp
          show ?thesis
          proof (cases t)
            case kTypeDeletion
            with Some g1 less.prems Cons obtain cs' where
              c: "Iterate_loop input1 = (cs', OK)" "cs = HandlerDelete key # cs'"
              by (auto dest: then_continue_OK)
            from step [OF c(1) l1] c(2) Some kTypeDeletion a1 Cons
            show ?thesis by (simp add: then_continue_pair)
          next
            case kTypeLogData
            with Some g1 less.prems Cons obtain cs' where
              c: "Iterate_loop input1 = (cs', OK)" "cs = HandlerLogData key # cs'"
              by (auto dest: then_continue_OK)
            from step [OF c(1) l1] c(2) Some kTypeLogData a1 Cons
            show ?thesis by (simp add: then_continue_pair)
          next
            case kTypeValue
            with Some g1 g2 less.prems Cons obtain cs' where
              c: "Iterate_loop input2 = (cs', OK)" "cs = HandlerPut key val # cs'"
              by (auto dest: then_continue_OK)
            from step [OF c(1) l2] c(2) Some kTypeValue a1 a2 Cons
            show ?thesis by (simp add: then_continue_pair)
          next
            case kTypeMerge
            with Some g1 g2 less.prems Cons obtain cs' where
              c: "Iterate_loop input2 = (cs', OK)" "cs = HandlerMerge key val # cs'"
              by (auto dest: then_continue_OK)
            from step [OF c(1) l2] c(2) Some kTypeMerge a1 a2 Cons
            show ?thesis by (simp add: then_continue_pair)
          qed
        qed
      qed
    qed
  qed
qed

lemma fold_inserter_fst:
  "fst (fold MemTableInserter cs (seq, mem)) = seq + of_nat (length (filter inserts cs))"
proof (induction cs arbitrary: seq mem)
  case Nil
  then show ?case by simp
next
  case (Cons c cs)
  then show ?case by (cases c) (simp_all add: ac_simps)
qed

lemma Append_fields:
  assumes "header_ok b1" "header_ok b2"
  shows "header_ok (Append b1 b2) \<and> Sequence (Append b1 b2) = Sequence b1 \<and>
     Count (Append b1 b2) = Count b1 + Count b2 \<and>
     drop kHeader (rep (Append b1 b2)) = drop kHeader (rep b1) @ drop kHeader (rep b2)"
proof -
  note sc = SetCount_fields [OF assms(1), of "Count b1 + Count b2"]
  from sc have l: "kHeader \<le> length (rep (SetCount b1 (Count b1 + Count b2)))"
    by (simp add: header_ok_def)
  with sc show ?thesis
    by (simp add: Append_def Let_def header_ok_def Count_def Sequence_def
        DecodeFixed32_def DecodeFixed64_def kHeader_def)
qed

lemma InsertInto_Append:
  assumes "header_ok b1" "header_ok b2" "Iterate b1 = (cs1, OK)"
  shows "InsertInto (Append b1 b2) mem
     = InsertInto (SetSequence b2 (Sequence b1 + of_nat (length (filter inserts cs1))))
         (snd (InsertInto b1 mem))"
proof -
  note af = Append_fields [OF assms(1,2)]
  note sf = SetSequence_fields [OF assms(2),
      of "Sequence b1 + of_nat (length (filter inserts cs1))"]
  obtain cs2 st2 where i2: "Iterate b2 = (cs2, st2)" by fastforce
  from assms(3) have l1: "Iterate_loop (drop kHeader (rep b1)) = (cs1, OK)"
    by (simp add: Iterate_def)
  from i2 have l2: "Iterate_loop (drop kHeader (rep b2)) = (cs2, st2)"
    by (simp add: Iterate_def)
  from Iterate_loop_append [OF l1, of "drop kHeader (rep b2)"] l2 af
  have ia: "Iterate (Append b1 b2) = (cs1 @ cs2, st2)"
    by (simp add: Iterate_def)
  from l2 sf have iss: "Iterate (SetSequence b2 (Sequence b1 + of_nat (length (filter inserts cs1))))
      = (cs2, st2)"
    by (simp add: Iterate_def)
  obtain s1 m1 where f1: "fold MemTableInserter cs1 (Sequence b1, mem) = (s1, m1)"
    by fastforce
  from fold_inserter_fst [of cs1 "Sequence b1" mem] f1
  have s1: "s1 = Sequence b1 + of_nat (length (filter inserts cs1))" by simp
  have lhs: "InsertInto (Append b1 b2) mem = (st2, snd (fold MemTableInserter cs2 (s1, m1)))"
    using ia af f1 by (simp add: InsertInto_def)
  have m1: "snd (InsertInto b1 mem) = m1"
    using assms(3) f1 by (simp add: InsertInto_def)
  have rhs: "InsertInto (SetSequence b2 (Sequence b1 + of_nat (length (filter inserts cs1)))) m1
      = (st2, snd (fold MemTableInserter cs2 (s1, m1)))"
    using iss sf s1 by (simp add: InsertInto_def)
  from lhs rhs m1 show ?thesis by simp
qed


lemma SetSequence_batch_of: "SetSequence (batch_of s ops) s' = batch_of s' ops"
proof -
  from fold_apply_op_fields [OF conjunct1 [OF new_fields], of ops]
  have "length (rep (fold apply_op ops WriteBatch_new)) \<ge> 8"
    by (simp add: header_ok_def kHeader_def)
  then show ?thesis
    by (simp add: batch_of_def SetSequence_def EncodeFixed64_length)
qed


text \<open>
  C7. For batches that hold their header, \<open>Append b1 b2\<close> keeps the sequence base of
  \<open>b1\<close>, has the sum of the two counts, and holds the records of \<open>b1\<close> followed by all
  the records \<open>b2\<close> holds at that moment. When \<open>b1\<close> replays without error, replaying
  the result is replaying \<open>b1\<close> and then \<open>b2\<close> from the sequence number that the replay
  of \<open>b1\<close> has reached: the base of \<open>b1\<close> plus the number of entries \<open>b1\<close> inserted,
  which is its count when the header of \<open>b1\<close> counts its records.
\<close>

theorem Append_replay:
  assumes "header_ok b1" and "header_ok b2" and "Iterate b1 = (cs1, OK)"
  shows "Sequence (Append b1 b2) = Sequence b1 \<and>
     Count (Append b1 b2) = Count b1 + Count b2 \<and>
     drop kHeader (rep (Append b1 b2)) = drop kHeader (rep b1) @ drop kHeader (rep b2) \<and>
     InsertInto (Append b1 b2) mem
       = InsertInto (SetSequence b2 (Sequence b1 + of_nat (length (filter inserts cs1))))
           (snd (InsertInto b1 mem)) \<and>
     (unat (Count b1) = length (filter inserts cs1) \<longrightarrow>
        InsertInto (Append b1 b2) mem
          = InsertInto (SetSequence b2 (Sequence b1 + ucast (Count b1)))
              (snd (InsertInto b1 mem)))"
proof -
  have "unat (Count b1) = length (filter inserts cs1) \<longrightarrow>
      (of_nat (length (filter inserts cs1)) :: 64 word) = ucast (Count b1)"
    by (metis of_nat_unat)
  with Append_fields [OF assms(1,2)] InsertInto_Append [OF assms, of mem]
  show ?thesis by auto
qed

theorem Append_replay_witness:
  "InsertInto (Append (batch_of 200 [OpPut ''a'' ''va''])
                      (batch_of 300 [OpPut ''b'' ''vb'', OpDelete ''foo''])) []
     = (OK, [(200, kTypeValue, ''a'', ''va''), (201, kTypeValue, ''b'', ''vb''),
             (202, kTypeDeletion, ''foo'', [])]) \<and>
   Count (Append (batch_of 200 [OpPut ''a'' ''va''])
                 (batch_of 300 [OpPut ''b'' ''vb'', OpDelete ''foo''])) = 3 \<and>
   Sequence (Append (batch_of 200 [OpPut ''a'' ''va''])
                    (batch_of 300 [OpPut ''b'' ''vb'', OpDelete ''foo''])) = 200"
proof -
  let ?b1 = "batch_of 200 [OpPut ''a'' ''va'']"
  let ?b2 = "batch_of 300 [OpPut ''b'' ''vb'', OpDelete ''foo'']"
  note f1 = batch_of_fields [of 200 "[OpPut ''a'' ''va'']"]
  note f2 = batch_of_fields [of 300 "[OpPut ''b'' ''vb'', OpDelete ''foo'']"]
  have i1: "Iterate ?b1 = ([HandlerPut ''a'' ''va''], OK)"
    using Iterate_batch_of [of "[OpPut ''a'' ''va'']" 200] by simp
  note w = Append_replay [OF conjunct1 [OF f1] conjunct1 [OF f2] i1, of "[]"]
  have "InsertInto ?b1 [] = (OK, [(200, kTypeValue, ''a'', ''va'')])"
    using InsertInto_batch_of [of "[OpPut ''a'' ''va'']" 200 "[]"]
    by (simp add: expected_entries_def)
  moreover have "InsertInto (batch_of 201 [OpPut ''b'' ''vb'', OpDelete ''foo''])
        [(200, kTypeValue, ''a'', ''va'')]
      = (OK, [(200, kTypeValue, ''a'', ''va''), (201, kTypeValue, ''b'', ''vb''),
             (202, kTypeDeletion, ''foo'', [])])"
    using InsertInto_batch_of [of "[OpPut ''b'' ''vb'', OpDelete ''foo'']" 201
        "[(200, kTypeValue, ''a'', ''va'')]"]
    by (simp add: expected_entries_def enumerate_eq_zip upt_rec)
  ultimately show ?thesis
    using w f1 f2 by (simp add: SetSequence_batch_of)
qed

subsection \<open>Truncated batches\<close>

lemma GetVarint32_from_truncated:
  "j < length (PutVarint n) \<Longrightarrow> GetVarint32_from shift r (take j (PutVarint n)) = None"
proof (induction n arbitrary: j shift r rule: PutVarint.induct)
  case (1 n)
  show ?case
  proof (cases "n < 128")
    case True
    then have "PutVarint n = [char_of n]" by (simp add: PutVarint.simps)
    with "1.prems" show ?thesis by simp
  next
    case False
    then have pv: "PutVarint n = char_of (n mod 128 + 128) # PutVarint (n div 128)"
      by (subst PutVarint.simps) simp
    have b: "(of_char (char_of (n mod 128 + 128)) :: nat) = n mod 128 + 128"
      by (rule of_char_char_of_small) simp
    show ?thesis
    proof (cases j)
      case 0
      then show ?thesis by simp
    next
      case (Suc j')
      with "1.prems" pv have "j' < length (PutVarint (n div 128))" by simp
      from "1.IH" [OF False this] Suc show ?thesis
        by (simp add: pv b)
    qed
  qed
qed

lemma GetLengthPrefixedSlice_truncated:
  assumes "length s < 2 ^ 32" "j < length (PutLengthPrefixedSlice s)"
  shows "GetLengthPrefixedSlice (take j (PutLengthPrefixedSlice s)) = None"
proof (cases "j < length (PutVarint32 (of_nat (length s)))")
  case True
  then have "take j (PutLengthPrefixedSlice s) = take j (PutVarint (unat (of_nat (length s) :: 32 word)))"
    by (simp add: PutLengthPrefixedSlice_def PutVarint32_def)
  with True GetVarint32_from_truncated [of j "unat (of_nat (length s) :: 32 word)" 0 0]
  show ?thesis
    by (simp add: GetLengthPrefixedSlice_def GetVarint32_def PutVarint32_def)
next
  case False
  define pv where "pv = PutVarint32 (of_nat (length s))"
  from False have t: "take j (PutLengthPrefixedSlice s) = pv @ take (j - length pv) s"
    by (simp add: PutLengthPrefixedSlice_def pv_def)
  from assms(2) False have sh: "j - length pv < length s"
    by (simp add: PutLengthPrefixedSlice_def pv_def)
  have u: "unat (of_nat (length s) :: 32 word) = length s"
    using assms(1) by (simp add: unat_of_nat)
  from GetVarint32_PutVarint32 [of "of_nat (length s)" "take (j - length pv) s"] sh u
  show ?thesis
    by (simp add: t GetLengthPrefixedSlice_def pv_def)
qed

lemma GetLengthPrefixedSlice_truncated_second:
  assumes "length k < 2 ^ 32" "length v < 2 ^ 32"
    "j < length (PutLengthPrefixedSlice k @ PutLengthPrefixedSlice v)"
  shows "case GetLengthPrefixedSlice (take j (PutLengthPrefixedSlice k @ PutLengthPrefixedSlice v)) of
           None \<Rightarrow> True
         | Some (key, input1) \<Rightarrow> GetLengthPrefixedSlice input1 = None"
proof (cases "j < length (PutLengthPrefixedSlice k)")
  case True
  then have "take j (PutLengthPrefixedSlice k @ PutLengthPrefixedSlice v)
      = take j (PutLengthPrefixedSlice k)" by simp
  with GetLengthPrefixedSlice_truncated [OF assms(1) True] show ?thesis
    by (simp only: option.case)
next
  case False
  then have t: "take j (PutLengthPrefixedSlice k @ PutLengthPrefixedSlice v)
      = PutLengthPrefixedSlice k
        @ take (j - length (PutLengthPrefixedSlice k)) (PutLengthPrefixedSlice v)" by simp
  from assms(3) False have
    "j - length (PutLengthPrefixedSlice k) < length (PutLengthPrefixedSlice v)" by simp
  note n = GetLengthPrefixedSlice_truncated [OF assms(2) this]
  have "GetLengthPrefixedSlice (take j (PutLengthPrefixedSlice k @ PutLengthPrefixedSlice v))
      = Some (k, take (j - length (PutLengthPrefixedSlice k)) (PutLengthPrefixedSlice v))"
    by (simp only: t GetLengthPrefixedSlice_Put [OF assms(1)])
  with n show ?thesis by (simp only: option.case prod.case)
qed

lemma Iterate_loop_truncated:
  assumes "op_fits op" "0 < j" "j < length (encode_op op)"
  shows "Iterate_loop (take j (encode_op op)) = ([], bad_record op)"
proof -
  from assms(2) obtain j' where j: "j = Suc j'" by (cases j) simp_all
  show ?thesis
  proof (cases op)
    case (OpPut k v)
    with assms j GetLengthPrefixedSlice_truncated_second [of k v j'] show ?thesis
      by (auto simp: tag_type_type_tag simp del: type_tag.simps split: option.splits)
  next
    case (OpDelete k)
    with assms j GetLengthPrefixedSlice_truncated [of k j'] show ?thesis
      by (simp add: tag_type_type_tag del: type_tag.simps)
  next
    case (OpMerge k v)
    with assms j GetLengthPrefixedSlice_truncated_second [of k v j'] show ?thesis
      by (auto simp: tag_type_type_tag simp del: type_tag.simps split: option.splits)
  next
    case (OpLogData blob)
    with assms j GetLengthPrefixedSlice_truncated [of blob j'] show ?thesis
      by (simp add: tag_type_type_tag del: type_tag.simps)
  qed
qed

lemma encode_op_length: "length (encode_op op) \<ge> 2"
proof -
  have "length (PutVarint n) \<ge> 1" for n
    by (subst PutVarint.simps) simp
  then have "length (PutLengthPrefixedSlice s) \<ge> 1" for s
    by (simp add: PutLengthPrefixedSlice_def PutVarint32_def le_SucI trans_le_add1)
  from this [of "case op of OpPut k v \<Rightarrow> k | OpDelete k \<Rightarrow> k | OpMerge k v \<Rightarrow> k | OpLogData b \<Rightarrow> b"]
  show ?thesis by (cases op) simp_all
qed

lemma InsertInto_truncated:
  assumes "list_all op_fits ops1" "op_fits op" "0 < j" "j < length (encode_op op)"
  shows "InsertInto (SetContents (batch_of s (ops1 @ op # ops2))
            (take (kHeader + length (concat (map encode_op ops1)) + j)
               (Contents (batch_of s (ops1 @ op # ops2))))) mem
     = (bad_record op, mem @ expected_entries s ops1)"
proof -
  define b where "b = batch_of s (ops1 @ op # ops2)"
  define P1 where "P1 = concat (map encode_op ops1)"
  define n where "n = kHeader + length P1 + j"
  define b' where "b' = SetContents b (take n (Contents b))"
  note bf = batch_of_fields [of s "ops1 @ op # ops2", folded b_def]
  from bf have l: "length (rep b) \<ge> 12" by (simp add: header_ok_def kHeader_def)
  from bf have pay: "drop kHeader (rep b) = P1 @ encode_op op @ concat (map encode_op ops2)"
    by (simp add: P1_def)
  have "drop kHeader (rep b') = take (length P1 + j) (drop kHeader (rep b))"
    by (simp add: b'_def SetContents_def Contents_def n_def drop_take)
  with pay assms(4) have pay': "drop kHeader (rep b') = P1 @ take j (encode_op op)"
    by simp
  have "take 8 (take n (rep b)) = take 8 (rep b)"
    by (simp add: n_def kHeader_def min_def)
  with bf have seq: "Sequence b' = s"
    by (simp add: Sequence_def b'_def SetContents_def Contents_def DecodeFixed64_def)
  from Iterate_loop_records [OF assms(1), of "take j (encode_op op)"]
    Iterate_loop_truncated [OF assms(2,3,4)] pay'
  have it: "Iterate b' = (map call_of ops1, bad_record op)"
    by (simp add: Iterate_def P1_def)
  show ?thesis
    using it seq fold_inserter_ops [of ops1 s mem]
    by (simp add: InsertInto_def b'_def [symmetric] b_def [symmetric] n_def [symmetric]
        P1_def [symmetric])
qed

lemma InsertInto_butlast:
  assumes "list_all op_fits ops1" "op_fits op"
  shows "InsertInto (SetContents (batch_of s (ops1 @ [op]))
            (butlast (Contents (batch_of s (ops1 @ [op]))))) mem
     = (bad_record op, mem @ expected_entries s ops1)"
proof -
  define b where "b = batch_of s (ops1 @ [op])"
  define j where "j = length (encode_op op) - 1"
  note bf = batch_of_fields [of s "ops1 @ [op]", folded b_def]
  from encode_op_length [of op] have j: "0 < j" "j < length (encode_op op)"
    by (simp_all add: j_def)
  from bf have "length (rep b) - kHeader = length (concat (map encode_op ops1)) + length (encode_op op)"
    by (metis append_Nil2 concat.simps(1) concat.simps(2) concat_append length_append length_drop
        list.simps(8) list.simps(9) map_append)
  moreover from bf have "length (rep b) \<ge> kHeader" by (simp add: header_ok_def)
  ultimately have "length (rep b) - 1 = kHeader + length (concat (map encode_op ops1)) + j"
    using j by (simp add: j_def)
  then have "butlast (Contents b)
      = take (kHeader + length (concat (map encode_op ops1)) + j) (Contents b)"
    by (simp add: butlast_conv_take Contents_def)
  with InsertInto_truncated [OF assms j, of s "[]" mem] show ?thesis
    by (simp add: b_def)
qed


text \<open>
  C8. Cut a batch built through the interface inside one of its records, after the tag
  byte of that record: replay inserts the records before it, under their sequence
  numbers, and then stops with the corruption error of the kind of the cut record; the
  entries inserted stay in the memtable. Removing the last byte of a batch cuts its last
  record in this way.
\<close>

theorem truncated_replay:
  "(list_all op_fits ops1 \<and> op_fits op \<and> 0 < j \<and> j < length (encode_op op) \<longrightarrow>
      InsertInto (SetContents (batch_of s (ops1 @ op # ops2))
            (take (kHeader + length (concat (map encode_op ops1)) + j)
               (Contents (batch_of s (ops1 @ op # ops2))))) mem
        = (bad_record op, mem @ expected_entries s ops1)) \<and>
   (list_all op_fits ops1 \<and> op_fits op \<longrightarrow>
      InsertInto (SetContents (batch_of s (ops1 @ [op]))
            (butlast (Contents (batch_of s (ops1 @ [op]))))) mem
        = (bad_record op, mem @ expected_entries s ops1))"
  using InsertInto_truncated [of ops1 op j s ops2 mem] InsertInto_butlast [of ops1 op s mem]
  by blast

theorem truncated_replay_witness:
  "InsertInto (SetContents (batch_of 200 [OpPut ''foo'' ''bar'', OpDelete ''box''])
      (butlast (Contents (batch_of 200 [OpPut ''foo'' ''bar'', OpDelete ''box''])))) []
     = (Corruption ''bad WriteBatch Delete'', [(200, kTypeValue, ''foo'', ''bar'')])"
  using truncated_replay [of "[OpPut ''foo'' ''bar'']" "OpDelete ''box''" 1 200 "[]" "[]"]
  by (simp add: expected_entries_def)


end
